theory Spec2Isabelle
  imports Main
begin

section \<open>The diff position resolver (\<open>getDiffPosition\<close>, gemini-review.js lines 58-76)\<close>

text \<open>
  JavaScript strings are modelled as \<open>string\<close>, a \<open>char\<close> standing for a code unit
  below 256; the resolver only tests prefixes, splits at the newline character and reads
  ASCII digits. JavaScript numbers are doubles; the model computes with mathematical
  integers (\<open>fileLine\<close>, \<open>targetLine\<close> and the value of \<open>parseInt\<close> are \<open>int\<close>),
  which is what the code computes as long as every number stays at most \<open>2 ^ 53\<close>.
  Beyond that bound the code rounds and the model does not follow it; the theorems on
  line numbers state the bound. \<open>position\<close> only counts up from 0 and is \<open>nat\<close>.
\<close>

subsection \<open>String primitives\<close>

definition startsWith :: "string \<Rightarrow> string \<Rightarrow> bool" where
  \<comment> \<open>\<open>s.startsWith(p)\<close>\<close>
  "startsWith s p = (take (length p) s = p)"

fun push_char :: "char \<Rightarrow> string list \<Rightarrow> string list" where
  \<comment> \<open>puts a character in front of the first piece\<close>
  "push_char c [] = [[c]]"
| "push_char c (l # ls) = (c # l) # ls"

fun split_nl :: "string \<Rightarrow> string list" where
  \<comment> \<open>\<open>s.split("\n")\<close>: never empty, one more piece than there are newlines\<close>
  "split_nl [] = [[]]"
| "split_nl (c # cs) =
     (if c = CHR 0x0A then [] # split_nl cs else push_char c (split_nl cs))"

definition is_digit :: "char \<Rightarrow> bool" where
  \<comment> \<open>the regular-expression class \<open>\d\<close>\<close>
  "is_digit c = (c \<in> set ''0123456789'')"

definition digit_value :: "char \<Rightarrow> int" where
  "digit_value c = int (of_char c) - 48"

definition parseInt :: "string \<Rightarrow> int" where
  \<comment> \<open>the value of a non-empty run of decimal digits: \<open>parseInt(ds, 10)\<close> wherever that
      value is at most \<open>2 ^ 53\<close>; beyond, JavaScript rounds to a double, which is not
      modelled\<close>
  "parseInt ds = foldl (\<lambda>n c. 10 * n + digit_value c) 0 ds"

subsection \<open>The hunk-header pattern\<close>

text \<open>
  The pattern is \<open>/@@ -\d+(?:,\d+)? \+(\d+)/\<close>. \<open>match_here\<close> matches it at the start
  of a string and returns capture group 1. Each \<open>\d+\<close> is greedy and is followed in the
  pattern by a character that is not a digit, so it takes the whole run of digits
  and no shorter choice can succeed; the optional group is entered exactly when a comma
  follows the first run, because the pattern then needs a blank where the comma is.
  \<open>regex_exec\<close> is \<open>exec\<close> without the \<open>g\<close> flag: the leftmost start that has a match.
\<close>

definition match_new_start :: "string \<Rightarrow> string option" where
  \<comment> \<open>the tail \<open> \+(\d+)\<close> of the pattern\<close>
  "match_new_start s =
     (if startsWith s '' +'' \<and> takeWhile is_digit (drop 2 s) \<noteq> []
      then Some (takeWhile is_digit (drop 2 s)) else None)"

definition match_here :: "string \<Rightarrow> string option" where
  "match_here s =
     (if \<not> startsWith s ''@@ -'' then None
      else if takeWhile is_digit (drop 4 s) = [] then None
      else let r = dropWhile is_digit (drop 4 s) in
        if startsWith r '','' then
          (if takeWhile is_digit (drop 1 r) = [] then None
           else match_new_start (dropWhile is_digit (drop 1 r)))
        else match_new_start r)"

fun regex_exec :: "string \<Rightarrow> string option" where
  "regex_exec [] = match_here []"
| "regex_exec (c # cs) =
     (case match_here (c # cs) of
        Some g \<Rightarrow> Some g
      | None \<Rightarrow> regex_exec cs)"

subsection \<open>The scan\<close>

record scan_state =
  fileLine :: int
  position :: nat

datatype step_result = Continue scan_state | Return nat

definition loop_body :: "int \<Rightarrow> scan_state \<Rightarrow> string \<Rightarrow> step_result" where
  \<comment> \<open>one iteration of \<open>for (const line of lines)\<close>, lines 64-73\<close>
  "loop_body targetLine st line =
     (let st1 = st\<lparr>position := position st + 1\<rparr> in
      if startsWith line ''@@'' then
        (case regex_exec line of
           Some g \<Rightarrow> Continue (st1\<lparr>fileLine := parseInt g - 1\<rparr>)
         | None \<Rightarrow> Continue st1)
      else if startsWith line ''+'' then
        (let st2 = st1\<lparr>fileLine := fileLine st1 + 1\<rparr> in
         if fileLine st2 = targetLine then Return (position st2) else Continue st2)
      else if \<not> startsWith line ''-'' then
        Continue (st1\<lparr>fileLine := fileLine st1 + 1\<rparr>)
      else Continue st1)"

fun run_lines :: "int \<Rightarrow> scan_state \<Rightarrow> string list \<Rightarrow> step_result" where
  \<comment> \<open>the loop over a list of lines: the state it ends in, or the value it returns\<close>
  "run_lines targetLine st [] = Continue st"
| "run_lines targetLine st (line # rest) =
     (case loop_body targetLine st line of
        Return p \<Rightarrow> Return p
      | Continue st' \<Rightarrow> run_lines targetLine st' rest)"

definition initial_state :: scan_state where
  "initial_state = \<lparr>fileLine = 0, position = 0\<rparr>"

definition getDiffPosition :: "string option \<Rightarrow> int \<Rightarrow> nat option" where
  \<comment> \<open>\<open>None\<close> as patch is \<open>undefined\<close>/\<open>null\<close>; \<open>None\<close> as result is \<open>null\<close>.
      \<open>!patch\<close> holds for an absent and for an empty patch.\<close>
  "getDiffPosition patch targetLine =
     (case patch of
        None \<Rightarrow> None
      | Some p \<Rightarrow>
          if p = [] then None
          else (case run_lines targetLine initial_state (split_nl p) of
                  Return pos \<Rightarrow> Some pos
                | Continue st \<Rightarrow> None))"

subsection \<open>Patch lines as the specification's data model has them\<close>

text \<open>
  The entries of a patch are hunk headers, added lines, removed lines and context lines.
  A hunk header begins with two at-signs and declares its ranges: the pattern occurs in
  it, and \<open>header_start\<close> is the start of its new range. An added line begins with a
  plus sign, a removed line with a minus sign, a context line is none of the three. A
  line that begins with two at-signs and declares no range is none of the four; it
  belongs to no new-file line.
\<close>

definition header_start :: "string \<Rightarrow> int option" where
  "header_start l = (if startsWith l ''@@'' then map_option parseInt (regex_exec l) else None)"

definition is_hunk_header :: "string \<Rightarrow> bool" where
  "is_hunk_header l = (header_start l \<noteq> None)"

definition is_added :: "string \<Rightarrow> bool" where
  "is_added l = startsWith l ''+''"

definition is_removed :: "string \<Rightarrow> bool" where
  "is_removed l = startsWith l ''-''"

definition is_context :: "string \<Rightarrow> bool" where
  "is_context l = (\<not> startsWith l ''@@'' \<and> \<not> is_added l \<and> \<not> is_removed l)"

definition in_new_file :: "string \<Rightarrow> bool" where
  "in_new_file l = (is_added l \<or> is_context l)"

definition hunk_seed :: "string list \<Rightarrow> int" where
  \<comment> \<open>the new-range start minus 1 of the last hunk header of a prefix; 0 when it has none\<close>
  "hunk_seed pre =
     (case dropWhile (\<lambda>l. \<not> is_hunk_header l) (rev pre) of
        [] \<Rightarrow> 0
      | h # _ \<Rightarrow> (case header_start h of Some n \<Rightarrow> n - 1 | None \<Rightarrow> 0))"

definition since_header :: "string list \<Rightarrow> string list" where
  \<comment> \<open>the lines of a prefix after its last hunk header (latest first)\<close>
  "since_header pre = takeWhile (\<lambda>l. \<not> is_hunk_header l) (rev pre)"

definition counter_after :: "string list \<Rightarrow> int" where
  \<comment> \<open>the new-file line reached at the end of a prefix\<close>
  "counter_after pre = hunk_seed pre + int (length (filter in_new_file (since_header pre)))"

definition new_file_line :: "string list \<Rightarrow> nat \<Rightarrow> int" where
  \<comment> \<open>the new-file line number of the line with index \<open>i\<close> (from 0), when it is an added or a context line\<close>
  "new_file_line ls i = counter_after (take (Suc i) ls)"

definition added_at :: "string list \<Rightarrow> int \<Rightarrow> nat \<Rightarrow> bool" where
  \<comment> \<open>the line with index \<open>i\<close> is an added line with new-file line number \<open>L\<close>\<close>
  "added_at ls L i = (i < length ls \<and> is_added (ls ! i) \<and> new_file_line ls i = L)"

definition first_added_at :: "string list \<Rightarrow> int \<Rightarrow> nat \<Rightarrow> bool" where
  \<comment> \<open>and no earlier line is\<close>
  "first_added_at ls L i = (added_at ls L i \<and> filter (added_at ls L) [0..<i] = [])"

definition lines_from_first_header :: "string list \<Rightarrow> string list" where
  \<comment> \<open>the patch from its first hunk header on\<close>
  "lines_from_first_header ls = dropWhile (\<lambda>l. \<not> is_hunk_header l) ls"

definition corresponds_to_added :: "string list \<Rightarrow> int \<Rightarrow> bool" where
  \<comment> \<open>the target is the new-file line number of some added line of the patch\<close>
  "corresponds_to_added ls L = (filter (added_at ls L) [0..<length ls] \<noteq> [])"

definition scenario_patch :: string where
  \<comment> \<open>the patch of end-to-end scenarios A and B\<close>
  "scenario_patch = ''@@ -1,2 +1,3 @@\<newline> line1\<newline>+line2\<newline> line3''"

definition two_hunk_patch :: string where
  \<comment> \<open>a patch of two hunks\<close>
  "two_hunk_patch = ''@@ -1,2 +1,2 @@\<newline>-a\<newline>+b\<newline> c\<newline>@@ -10,1 +10,2 @@\<newline> x\<newline>+y''"

definition removal_patch :: string where
  \<comment> \<open>a hunk header, a removed line and an added line\<close>
  "removal_patch = ''@@ -1 +1 @@\<newline>-a\<newline>+b''"

definition is_unparsed_marker :: "string \<Rightarrow> bool" where
  \<comment> \<open>two at-signs without ranges\<close>
  "is_unparsed_marker l = (startsWith l ''@@'' \<and> header_start l = None)"

definition lines_counted :: "(string \<Rightarrow> bool) \<Rightarrow> string list \<Rightarrow> nat \<Rightarrow> nat" where
  \<comment> \<open>the 1-based offset of the line with index \<open>i\<close> when only the lines that satisfy \<open>counts\<close> count\<close>
  "lines_counted counts ls i = length (filter counts (take (Suc i) ls))"

definition counted_without_removed :: "string \<Rightarrow> bool" where
  \<comment> \<open>headers, added and context lines count; removed lines do not\<close>
  "counted_without_removed l = (is_hunk_header l \<or> is_added l \<or> is_context l)"

definition no_hunk_header :: "string list \<Rightarrow> bool" where
  "no_hunk_header ls = (filter is_hunk_header ls = [])"

subsection \<open>Patches as sequences of entries\<close>

text \<open>
  The data model of the specification, written without the resolver's own parser: a patch
  is a sequence of entries, each a hunk header, an added line, a removed line or a
  context line. A hunk header carries the start and the optional length of the old
  range and of the new range and the text after its closing at-signs. \<open>render\<close> prints
  an entry as the line of a unified diff, numbers in decimal, and \<open>patch_text\<close> joins
  the lines with newlines. The new-file number of an entry is the new-range start of
  the last hunk header at or before it, minus 1, plus the added and context lines since
  that header; before any header the count starts at 1. JavaScript computes with doubles,
  which are exact up to \<open>2 ^ 53 = 9007199254740992\<close>; \<open>numbers_exact\<close> keeps every
  line number of a patch within that range.
\<close>

datatype entry =
    Hunk nat "nat option" nat "nat option" string
  | AddedLine string
  | RemovedLine string
  | ContextLine string

definition digit_char :: "nat \<Rightarrow> char" where
  "digit_char d = ''0123456789'' ! d"

fun show_nat :: "nat \<Rightarrow> string" where
  "show_nat n = (if n < 10 then [digit_char n] else show_nat (n div 10) @ [digit_char (n mod 10)])"

declare show_nat.simps [simp del]

definition range_text :: "nat \<Rightarrow> nat option \<Rightarrow> string" where
  "range_text start len = show_nat start @ (case len of None \<Rightarrow> [] | Some k \<Rightarrow> '','' @ show_nat k)"

fun render :: "entry \<Rightarrow> string" where
  "render (Hunk a m c n tail) = ''@@ -'' @ range_text a m @ '' +'' @ range_text c n @ '' @@'' @ tail"
| "render (AddedLine s) = ''+'' @ s"
| "render (RemovedLine s) = ''-'' @ s"
| "render (ContextLine s) = '' '' @ s"

fun join_lines :: "string list \<Rightarrow> string" where
  \<comment> \<open>\<open>lines.join("\n")\<close>\<close>
  "join_lines [] = []"
| "join_lines [l] = l"
| "join_lines (l # k # ls) = l @ ''\<newline>'' @ join_lines (k # ls)"

definition patch_text :: "entry list \<Rightarrow> string" where
  "patch_text es = join_lines (map render es)"

fun entry_text :: "entry \<Rightarrow> string" where
  "entry_text (Hunk a m c n tail) = tail"
| "entry_text (AddedLine s) = s"
| "entry_text (RemovedLine s) = s"
| "entry_text (ContextLine s) = s"

fun is_hunk :: "entry \<Rightarrow> bool" where
  "is_hunk (Hunk a m c n tail) = True"
| "is_hunk e = False"

fun is_added_entry :: "entry \<Rightarrow> bool" where
  "is_added_entry (AddedLine s) = True"
| "is_added_entry e = False"

fun of_new_file :: "entry \<Rightarrow> bool" where
  "of_new_file (AddedLine s) = True"
| "of_new_file (ContextLine s) = True"
| "of_new_file e = False"

fun new_start :: "entry \<Rightarrow> nat" where
  "new_start (Hunk a m c n tail) = c"
| "new_start e = 0"

definition entry_number :: "entry list \<Rightarrow> nat \<Rightarrow> int" where
  \<comment> \<open>the new-file line number of the entry with index \<open>i\<close> (from 0)\<close>
  "entry_number es i =
     (case dropWhile (\<lambda>e. \<not> is_hunk e) (rev (take (Suc i) es)) of
        [] \<Rightarrow> 0
      | h # _ \<Rightarrow> int (new_start h) - 1) +
     int (length (filter of_new_file (takeWhile (\<lambda>e. \<not> is_hunk e) (rev (take (Suc i) es)))))"

definition numbered_added :: "entry list \<Rightarrow> int \<Rightarrow> nat \<Rightarrow> bool" where
  \<comment> \<open>entry \<open>i\<close> is an added line with new-file line number \<open>L\<close>\<close>
  "numbered_added es L i = (is_added_entry (es ! i) \<and> entry_number es i = L)"

definition expected_position :: "entry list \<Rightarrow> int \<Rightarrow> nat option" where
  \<comment> \<open>the 1-based index of the first added line numbered \<open>L\<close>\<close>
  "expected_position es L = map_option Suc (find (numbered_added es L) [0..<length es])"

definition single_lines :: "entry list \<Rightarrow> bool" where
  \<comment> \<open>no text of an entry holds a newline\<close>
  "single_lines es = (filter (\<lambda>e. CHR ''\<newline>'' \<in> set (entry_text e)) es = [])"

definition numbers_exact :: "entry list \<Rightarrow> bool" where
  \<comment> \<open>every new-range start plus the number of lines is at most \<open>2 ^ 53\<close>\<close>
  "numbers_exact es = (filter (\<lambda>e. 9007199254740992 < new_start e + length es) es = [])"

definition preamble_entries :: "entry list" where
  \<comment> \<open>a context line before the first hunk header\<close>
  "preamble_entries = [ContextLine ''ctx'', Hunk 5 None 5 None [], AddedLine ''x'']"

definition scenario_entries :: "entry list" where
  \<comment> \<open>the entries of \<open>scenario_patch\<close>\<close>
  "scenario_entries =
     [Hunk 1 (Some 2) 1 (Some 3) [], ContextLine ''line1'', AddedLine ''line2'',
      ContextLine ''line3'']"

definition shifted_entries :: "entry list" where
  \<comment> \<open>two hunks; the second starts at line 10 of the old file and at line 11 of the new one\<close>
  "shifted_entries =
     [Hunk 1 (Some 2) 1 (Some 3) [], ContextLine ''a'', AddedLine ''b'', ContextLine ''c'',
      Hunk 10 (Some 1) 11 (Some 2) [], ContextLine ''x'', AddedLine ''y'']"

section \<open>The review orchestrator (gemini-review.js lines 1-23 and 78-232)\<close>

text \<open>
  The script awaits one call after the other, so a run is a sequence of effects. A
  computation is the list of effects it performed together with the value it returned or
  the error it threw; \<open>bind\<close> sequences two computations and stops at a throw,
  \<open>try_catch\<close> is \<open>try { ... } catch (err) { ... }\<close>. The collaborators (the hosting
  API, the text-generation endpoint and \<open>JSON.parse\<close>) are parameters: a record gives
  what each call answers, an error standing for a rejected promise or a throw. The
  prompt templates are long literal texts and are fields of the configuration. Console
  output is an effect named after the message it prints. A JSON number is kept as an
  integer; no claim depends on fractions.
\<close>

subsection \<open>Values, errors and effects\<close>

datatype json =
    JNull
  | JBool bool
  | JNum int
  | JStr string
  | JArr "json list"
  | JObj "(string \<times> json) list"

datatype js_error = RequestFailed string | TypeError | SyntaxError

record changed_file =
  filename :: string
  patch :: "string option"

record review_comment =
  c_path :: "json option"
  c_position :: "json option"
  c_body :: "json option"

datatype log_message =
    FetchingChangedFiles
  | NoFilesChanged
  | SendingDiff
  | GeneratingInline
  | GeneratedInline json
  | InvalidJson
  | RawResponse "string option"
  | CreateReviewFailed js_error
  | AddedInline "json option"
  | NoInlineIssues
  | GeneratingSummary
  | SummaryPosted
  | NoSummary
  | SummaryResponseWas "string option"
  | ReviewCompleted
  | FatalError js_error
  | NoPullRequestNumber

datatype event =
    Log log_message
  | ListFiles
  | Generate string "string option"
  | PullsGet
  | CreateReview string "review_comment list"
  | CreateComment string

type_synonym 'a comp = "event list \<times> (js_error + 'a)"

definition ret :: "'a \<Rightarrow> 'a comp" where
  "ret x = ([], Inr x)"

definition emit :: "event \<Rightarrow> unit comp" where
  "emit ev = ([ev], Inr ())"

definition await :: "js_error + 'a \<Rightarrow> 'a comp" where
  "await r = ([], r)"

definition bind :: "'a comp \<Rightarrow> ('a \<Rightarrow> 'b comp) \<Rightarrow> 'b comp" where
  "bind m k =
     (case m of
        (es, Inl e) \<Rightarrow> (es, Inl e)
      | (es, Inr x) \<Rightarrow> (case k x of (es', r) \<Rightarrow> (es @ es', r)))"

definition try_catch :: "'a comp \<Rightarrow> (js_error \<Rightarrow> 'a comp) \<Rightarrow> 'a comp" where
  "try_catch m h =
     (case m of
        (es, Inl e) \<Rightarrow> (case h e of (es', r) \<Rightarrow> (es @ es', r))
      | (es, Inr x) \<Rightarrow> (es, Inr x))"

record config =
  prNumber :: "int option"
  env_REVIEW_MODE :: "string option"
  GEMINI_API_KEY :: "string option"
  GEMINI_API_KEY_2 :: "string option"
  reviewPrompt :: string
  inlineFormat :: string
  summaryFormat :: string

record collaborators =
  listFiles :: "js_error + changed_file list"
  generateContent :: "string \<Rightarrow> string option \<Rightarrow> js_error + string option"
  JSON_parse :: "string \<Rightarrow> json option"
  pulls_get :: "js_error + string"
  createReview :: "string \<Rightarrow> review_comment list \<Rightarrow> js_error + unit"
  createComment :: "string \<Rightarrow> js_error + unit"

definition REVIEW_MODE :: "config \<Rightarrow> string" where
  \<comment> \<open>\<open>process.env.REVIEW_MODE || "full"\<close>\<close>
  "REVIEW_MODE cfg =
     (case env_REVIEW_MODE cfg of
        None \<Rightarrow> ''full''
      | Some m \<Rightarrow> if m = [] then ''full'' else m)"

subsection \<open>The response sanitizer (lines 158-169)\<close>

function remove_all :: "string \<Rightarrow> string \<Rightarrow> string" where
  \<comment> \<open>\<open>s.replace(/pat/g, "")\<close> for a literal pattern: the matches are found from the left and do not overlap\<close>
  "remove_all pat s =
     (if s = [] then []
      else if pat \<noteq> [] \<and> startsWith s pat then remove_all pat (drop (length pat) s)
      else hd s # remove_all pat (tl s))"
  by pat_completeness auto
termination
  by (relation "measure (\<lambda>(pat, s). length s)") auto

declare remove_all.simps [simp del]

definition fence :: string where
  "fence = [CHR 0x60, CHR 0x60, CHR 0x60]"

definition fence_json :: string where
  "fence_json = fence @ ''json''"

definition is_white_space :: "char \<Rightarrow> bool" where
  \<comment> \<open>the white space and line terminators that \<open>trim\<close> strips, among the code units
      below 256 that a \<open>char\<close> stands for\<close>
  "is_white_space c =
     (c \<in> set [CHR 0x09, CHR 0x0A, CHR 0x0B, CHR 0x0C, CHR 0x0D, CHR 0x20, CHR 0xA0])"

definition trim :: "string \<Rightarrow> string" where
  "trim s = rev (dropWhile is_white_space (rev (dropWhile is_white_space s)))"

definition cleaned :: "string option \<Rightarrow> string" where
  \<comment> \<open>the text handed to \<open>JSON.parse\<close>; an absent response skips the calls and is read as the text \<open>undefined\<close>\<close>
  "cleaned inlineResponse =
     (case inlineResponse of
        None \<Rightarrow> ''undefined''
      | Some s \<Rightarrow> trim (remove_all fence (remove_all fence_json s)))"

definition parse_inline :: "collaborators \<Rightarrow> string option \<Rightarrow> json comp" where
  \<comment> \<open>lines 158-169: the value of \<open>inlineComments\<close> after the block\<close>
  "parse_inline co inlineResponse =
     try_catch
       (bind (await (case JSON_parse co (cleaned inlineResponse) of
                       None \<Rightarrow> Inl SyntaxError
                     | Some v \<Rightarrow> Inr v))
          (\<lambda>inlineComments.
             bind (emit (Log (GeneratedInline inlineComments))) (\<lambda>_. ret inlineComments)))
       (\<lambda>err.
          bind (emit (Log InvalidJson))
            (\<lambda>_. bind (emit (Log (RawResponse inlineResponse))) (\<lambda>_. ret (JArr []))))"

subsection \<open>Posting the inline review (lines 171-201)\<close>

fun truthy :: "json option \<Rightarrow> bool" where
  \<comment> \<open>JavaScript truthiness; \<open>None\<close> is \<open>undefined\<close>\<close>
  "truthy None = False"
| "truthy (Some JNull) = False"
| "truthy (Some (JBool b)) = b"
| "truthy (Some (JNum n)) = (n \<noteq> 0)"
| "truthy (Some (JStr s)) = (s \<noteq> [])"
| "truthy (Some (JArr xs)) = True"
| "truthy (Some (JObj kvs)) = True"

fun get_length :: "json \<Rightarrow> js_error + json option" where
  \<comment> \<open>\<open>inlineComments.length\<close>\<close>
  "get_length JNull = Inl TypeError"
| "get_length (JArr xs) = Inr (Some (JNum (int (length xs))))"
| "get_length (JStr s) = Inr (Some (JNum (int (length s))))"
| "get_length (JObj kvs) = Inr (map_of (rev kvs) ''length'')"
| "get_length (JBool b) = Inr None"
| "get_length (JNum n) = Inr None"

fun get_member :: "json \<Rightarrow> string \<Rightarrow> js_error + json option" where
  \<comment> \<open>\<open>c.file\<close>, \<open>c.line\<close>, \<open>c.comment\<close>: a later duplicate key wins\<close>
  "get_member JNull k = Inl TypeError"
| "get_member (JObj kvs) k = Inr (map_of (rev kvs) k)"
| "get_member (JArr xs) k = Inr None"
| "get_member (JStr s) k = Inr None"
| "get_member (JBool b) k = Inr None"
| "get_member (JNum n) k = Inr None"

definition to_comment :: "json \<Rightarrow> js_error + review_comment" where
  "to_comment c =
     (case get_member c ''file'' of
        Inl e \<Rightarrow> Inl e
      | Inr f \<Rightarrow>
          (case get_member c ''line'' of
             Inl e \<Rightarrow> Inl e
           | Inr l \<Rightarrow>
               (case get_member c ''comment'' of
                  Inl e \<Rightarrow> Inl e
                | Inr b \<Rightarrow> Inr \<lparr>c_path = f, c_position = l, c_body = b\<rparr>)))"

fun map_comments :: "json list \<Rightarrow> js_error + review_comment list" where
  "map_comments [] = Inr []"
| "map_comments (c # cs) =
     (case to_comment c of
        Inl e \<Rightarrow> Inl e
      | Inr x \<Rightarrow> (case map_comments cs of Inl e \<Rightarrow> Inl e | Inr xs \<Rightarrow> Inr (x # xs)))"

definition comments_of :: "json \<Rightarrow> js_error + review_comment list" where
  \<comment> \<open>\<open>inlineComments.map(...)\<close>: only an array has \<open>map\<close>\<close>
  "comments_of inlineComments =
     (case inlineComments of JArr cs \<Rightarrow> map_comments cs | _ \<Rightarrow> Inl TypeError)"

definition post_inline :: "collaborators \<Rightarrow> json \<Rightarrow> unit comp" where
  \<comment> \<open>lines 171-201\<close>
  "post_inline co inlineComments =
     bind (await (get_length inlineComments)) (\<lambda>len.
       if truthy len then
         bind
           (try_catch
              (bind (emit PullsGet) (\<lambda>_.
               bind (await (pulls_get co)) (\<lambda>commitSha.
               bind (await (comments_of inlineComments)) (\<lambda>comments.
               bind (emit (CreateReview commitSha comments)) (\<lambda>_.
               await (createReview co commitSha comments))))))
              (\<lambda>err.
                 bind (emit (Log (CreateReviewFailed err)))
                   (\<lambda>_. emit (Log (GeneratedInline inlineComments)))))
           (\<lambda>_. emit (Log (AddedInline len)))
       else emit (Log NoInlineIssues))"

subsection \<open>The pipeline (lines 78-232)\<close>

definition callGemini :: "collaborators \<Rightarrow> string \<Rightarrow> string option \<Rightarrow> (string option) comp" where
  "callGemini co promptText apiKey =
     bind (emit (Generate promptText apiKey)) (\<lambda>_. await (generateContent co promptText apiKey))"

definition add_file_diff :: "string \<Rightarrow> changed_file \<Rightarrow> string" where
  \<comment> \<open>one iteration of the loop of lines 103-107\<close>
  "add_file_diff fileDiffs file =
     (case patch file of
        None \<Rightarrow> fileDiffs
      | Some p \<Rightarrow>
          if p = [] then fileDiffs
          else fileDiffs @ ''\<newline>File: '' @ filename file @ ''\<newline>'' @ p @ ''\<newline>'')"

definition build_fileDiffs :: "changed_file list \<Rightarrow> string" where
  "build_fileDiffs files = foldl add_file_diff [] files"

definition inline_prompt :: "config \<Rightarrow> string \<Rightarrow> string" where
  "inline_prompt cfg fileDiffs =
     reviewPrompt cfg @ ''\<newline>\<newline>'' @ inlineFormat cfg @ ''\<newline>\<newline>'' @ fileDiffs"

definition summary_prompt :: "config \<Rightarrow> string \<Rightarrow> string" where
  "summary_prompt cfg fileDiffs =
     reviewPrompt cfg @ ''\<newline>\<newline>'' @ summaryFormat cfg @ ''\<newline>\<newline>'' @ fileDiffs"

definition inline_review :: "config \<Rightarrow> collaborators \<Rightarrow> string \<Rightarrow> unit comp" where
  \<comment> \<open>lines 152-201\<close>
  "inline_review cfg co fileDiffs =
     bind (emit (Log GeneratingInline)) (\<lambda>_.
     bind (callGemini co (inline_prompt cfg fileDiffs) (GEMINI_API_KEY cfg)) (\<lambda>inlineResponse.
     bind (parse_inline co inlineResponse) (\<lambda>inlineComments.
     post_inline co inlineComments)))"

definition summary_review :: "config \<Rightarrow> collaborators \<Rightarrow> string \<Rightarrow> unit comp" where
  \<comment> \<open>lines 206-223\<close>
  "summary_review cfg co fileDiffs =
     bind (emit (Log GeneratingSummary)) (\<lambda>_.
     bind (callGemini co (summary_prompt cfg fileDiffs) (GEMINI_API_KEY_2 cfg)) (\<lambda>summaryResponse.
       case summaryResponse of
         None \<Rightarrow>
           bind (emit (Log NoSummary)) (\<lambda>_. emit (Log (SummaryResponseWas summaryResponse)))
       | Some text \<Rightarrow>
           if text = [] then
             bind (emit (Log NoSummary)) (\<lambda>_. emit (Log (SummaryResponseWas summaryResponse)))
           else
             bind (emit (CreateComment text)) (\<lambda>_.
             bind (await (createComment co text)) (\<lambda>_.
             emit (Log SummaryPosted)))))"

definition main :: "config \<Rightarrow> collaborators \<Rightarrow> unit comp" where
  \<comment> \<open>lines 89-227\<close>
  "main cfg co =
     bind (emit (Log FetchingChangedFiles)) (\<lambda>_.
     bind (emit ListFiles) (\<lambda>_.
     bind (await (listFiles co)) (\<lambda>files.
     bind (if files = [] then emit (Log NoFilesChanged) else ret ()) (\<lambda>_.
     bind (emit (Log SendingDiff)) (\<lambda>_.
     bind (if REVIEW_MODE cfg = ''inline'' \<or> REVIEW_MODE cfg = ''full''
           then inline_review cfg co (build_fileDiffs files) else ret ()) (\<lambda>_.
     bind (if REVIEW_MODE cfg = ''summary'' \<or> REVIEW_MODE cfg = ''full''
           then summary_review cfg co (build_fileDiffs files) else ret ()) (\<lambda>_.
     emit (Log ReviewCompleted))))))))"

definition has_prNumber :: "config \<Rightarrow> bool" where
  \<comment> \<open>the negation of \<open>!prNumber\<close>\<close>
  "has_prNumber cfg = (case prNumber cfg of None \<Rightarrow> False | Some n \<Rightarrow> n \<noteq> 0)"

definition run :: "config \<Rightarrow> collaborators \<Rightarrow> event list \<times> nat" where
  \<comment> \<open>the script from line 14 on: the effects and the exit status\<close>
  "run cfg co =
     (if \<not> has_prNumber cfg then ([Log NoPullRequestNumber], 1)
      else (case main cfg co of
              (es, Inr u) \<Rightarrow> (es, 0)
            | (es, Inl err) \<Rightarrow> (es @ [Log (FatalError err)], 1)))"

subsection \<open>Stages, observations and sample runs\<close>

definition is_post :: "event \<Rightarrow> bool" where
  \<comment> \<open>the effects that post a comment\<close>
  "is_post ev = (case ev of CreateReview sha cs \<Rightarrow> True | CreateComment t \<Rightarrow> True | _ \<Rightarrow> False)"

definition truncated_output :: string where
  \<comment> \<open>the truncated model output of end-to-end scenario D\<close>
  "truncated_output = ''['' @ [CHR 0x22] @ ''not json''"

definition is_review :: "event \<Rightarrow> bool" where
  \<comment> \<open>the effect that posts inline comments\<close>
  "is_review ev = (case ev of CreateReview sha cs \<Rightarrow> True | _ \<Rightarrow> False)"

definition quoted :: "string \<Rightarrow> string" where
  "quoted s = CHR 0x22 # s @ [CHR 0x22]"

definition one_comment_output :: string where
  \<comment> \<open>a model output with one comment record\<close>
  "one_comment_output =
     ''[{'' @ quoted ''file'' @ '':'' @ quoted ''a.ts'' @ '','' @ quoted ''line'' @ '':3,'' @
     quoted ''comment'' @ '':'' @ quoted ''fix'' @ ''}]''"

definition demo_parse :: "string \<Rightarrow> json option" where
  \<comment> \<open>what \<open>JSON.parse\<close> answers on the texts of the sample runs: it throws on every other text used there\<close>
  "demo_parse s =
     (if s = ''[]'' then Some (JArr [])
      else if s = ''null'' then Some JNull
      else if s = one_comment_output then
        Some (JArr [JObj [(''file'', JStr ''a.ts''), (''line'', JNum 3), (''comment'', JStr ''fix'')]])
      else None)"

definition demo_config :: config where
  "demo_config =
     \<lparr>prNumber = Some 7, env_REVIEW_MODE = None, GEMINI_API_KEY = Some ''key1'',
      GEMINI_API_KEY_2 = Some ''key2'', reviewPrompt = ''review'', inlineFormat = ''inline'',
      summaryFormat = ''summary''\<rparr>"

definition demo_collaborators ::
  "changed_file list \<Rightarrow> js_error + string option \<Rightarrow> js_error + string option \<Rightarrow>
   js_error + string \<Rightarrow> collaborators" where
  "demo_collaborators files inlineResult summaryResult headResult =
     \<lparr>listFiles = Inr files,
      generateContent =
        (\<lambda>promptText apiKey. if apiKey = Some ''key1'' then inlineResult else summaryResult),
      JSON_parse = demo_parse,
      pulls_get = headResult,
      createReview = (\<lambda>commitSha comments. Inr ()),
      createComment = (\<lambda>body. Inr ())\<rparr>"

definition demo_files :: "changed_file list" where
  "demo_files = [\<lparr>filename = ''a.ts'', patch = Some scenario_patch\<rparr>]"

definition wrap_fenced :: "string \<Rightarrow> string" where
  \<comment> \<open>a fence with the language tag before the text, a fence after it\<close>
  "wrap_fenced s = fence_json @ s @ fence"

definition wrap_fenced_lines :: "string \<Rightarrow> string" where
  \<comment> \<open>the same with each fence on a line of its own\<close>
  "wrap_fenced_lines s = fence_json @ ''\<newline>'' @ s @ ''\<newline>'' @ fence"

definition inline_requested :: "config \<Rightarrow> bool" where
  "inline_requested cfg = (REVIEW_MODE cfg = ''inline'' \<or> REVIEW_MODE cfg = ''full'')"

definition summary_requested :: "config \<Rightarrow> bool" where
  "summary_requested cfg = (REVIEW_MODE cfg = ''summary'' \<or> REVIEW_MODE cfg = ''full'')"

definition preamble_events :: "changed_file list \<Rightarrow> event list" where
  \<comment> \<open>the effects of lines 90-148 once the files are listed\<close>
  "preamble_events files =
     [Log FetchingChangedFiles, ListFiles] @ (if files = [] then [Log NoFilesChanged] else []) @
     [Log SendingDiff]"

definition inline_stage :: "config \<Rightarrow> collaborators \<Rightarrow> string \<Rightarrow> unit comp" where
  \<comment> \<open>lines 151-202 with their guard\<close>
  "inline_stage cfg co fileDiffs =
     (if inline_requested cfg then inline_review cfg co fileDiffs else ret ())"

definition summary_stage :: "config \<Rightarrow> collaborators \<Rightarrow> string \<Rightarrow> unit comp" where
  \<comment> \<open>lines 205-224 with their guard\<close>
  "summary_stage cfg co fileDiffs =
     (if summary_requested cfg then summary_review cfg co fileDiffs else ret ())"

definition malformed_run :: "event list \<times> nat" where
  "malformed_run =
     run demo_config
       (demo_collaborators demo_files (Inr (Some truncated_output)) (Inr (Some ''LGTM''))
          (Inr ''sha''))"

definition null_output_run :: "event list \<times> nat" where
  "null_output_run =
     run demo_config
       (demo_collaborators demo_files (Inr (Some ''null'')) (Inr (Some ''LGTM'')) (Inr ''sha''))"

definition posting_failure_run :: "event list \<times> nat" where
  "posting_failure_run =
     run demo_config
       (demo_collaborators demo_files (Inr (Some one_comment_output)) (Inr (Some ''LGTM''))
          (Inl (RequestFailed ''404'')))"

definition quiet_run :: "event list \<times> nat" where
  "quiet_run =
     run demo_config (demo_collaborators [] (Inr (Some ''[]'')) (Inr None) (Inr ''sha''))"

section \<open>Properties of the resolver\<close>

subsection \<open>The loop invariant\<close>

lemma added_not_marker: "startsWith l ''+'' \<Longrightarrow> \<not> startsWith l ''@@''"
  by (cases l) (auto simp: startsWith_def)

lemma counter_after_snoc:
  "counter_after (pre @ [l]) =
     (case header_start l of Some n \<Rightarrow> n - 1
      | None \<Rightarrow> if in_new_file l then counter_after pre + 1 else counter_after pre)"
  by (auto simp: counter_after_def hunk_seed_def since_header_def is_hunk_header_def
      split: option.splits)

lemma loop_body_spec:
  "loop_body t \<lparr>fileLine = counter_after pre, position = length pre\<rparr> l =
     (if is_added l \<and> counter_after (pre @ [l]) = t then Return (Suc (length pre))
      else Continue \<lparr>fileLine = counter_after (pre @ [l]), position = Suc (length pre)\<rparr>)"
  by (auto simp: loop_body_def counter_after_snoc header_start_def is_added_def in_new_file_def
      is_context_def is_removed_def Let_def added_not_marker split: option.splits)

lemma run_lines_Return:
  "ls = pre @ rest \<Longrightarrow>
   run_lines t \<lparr>fileLine = counter_after pre, position = length pre\<rparr> rest = Return p \<Longrightarrow>
   length pre < p \<and> p \<le> length ls \<and> added_at ls t (p - 1) \<and>
   (\<forall>i. length pre \<le> i \<and> i < p - 1 \<longrightarrow> \<not> added_at ls t i)"
proof (induction rest arbitrary: pre)
  case Nil
  then show ?case by simp
next
  case (Cons l rest)
  have tk: "take (Suc (length pre)) ls = pre @ [l]" using Cons.prems(1) by simp
  have nth: "ls ! length pre = l" using Cons.prems(1) by simp
  have here: "added_at ls t (length pre) \<longleftrightarrow> is_added l \<and> counter_after (pre @ [l]) = t"
    using Cons.prems(1) by (simp add: added_at_def new_file_line_def tk nth)
  show ?case
  proof (cases "is_added l \<and> counter_after (pre @ [l]) = t")
    case True
    then have "p = Suc (length pre)" using Cons.prems(2) by (simp add: loop_body_spec)
    then show ?thesis using True here Cons.prems(1) by auto
  next
    case False
    then have "loop_body t \<lparr>fileLine = counter_after pre, position = length pre\<rparr> l =
        Continue \<lparr>fileLine = counter_after (pre @ [l]), position = length (pre @ [l])\<rparr>"
      by (simp only: loop_body_spec if_not_P if_False length_append_singleton)
    then have run: "run_lines t \<lparr>fileLine = counter_after (pre @ [l]), position = length (pre @ [l])\<rparr> rest = Return p"
      using Cons.prems(2) by simp
    have "ls = (pre @ [l]) @ rest" using Cons.prems(1) by simp
    from Cons.IH[OF this run]
    have ih: "length (pre @ [l]) < p" "p \<le> length ls" "added_at ls t (p - 1)"
      "\<forall>i. length (pre @ [l]) \<le> i \<and> i < p - 1 \<longrightarrow> \<not> added_at ls t i" by auto
    have "\<not> added_at ls t i" if "length pre \<le> i" "i < p - 1" for i
    proof (cases "i = length pre")
      case True then show ?thesis using False here by simp
    next
      case False then show ?thesis using ih(4) that by simp
    qed
    then show ?thesis using ih by auto
  qed
qed

lemma run_lines_Continue:
  "ls = pre @ rest \<Longrightarrow>
   run_lines t \<lparr>fileLine = counter_after pre, position = length pre\<rparr> rest = Continue st \<Longrightarrow>
   st = \<lparr>fileLine = counter_after ls, position = length ls\<rparr> \<and>
   (\<forall>i. length pre \<le> i \<longrightarrow> \<not> added_at ls t i)"
proof (induction rest arbitrary: pre)
  case Nil
  then show ?case by (simp add: added_at_def)
next
  case (Cons l rest)
  have tk: "take (Suc (length pre)) ls = pre @ [l]" using Cons.prems(1) by simp
  have nth: "ls ! length pre = l" using Cons.prems(1) by simp
  have here: "added_at ls t (length pre) \<longleftrightarrow> is_added l \<and> counter_after (pre @ [l]) = t"
    using Cons.prems(1) by (simp add: added_at_def new_file_line_def tk nth)
  have nohit: "\<not> (is_added l \<and> counter_after (pre @ [l]) = t)"
    using Cons.prems(2) by (auto simp: loop_body_spec split: if_splits)
  then have "loop_body t \<lparr>fileLine = counter_after pre, position = length pre\<rparr> l =
      Continue \<lparr>fileLine = counter_after (pre @ [l]), position = length (pre @ [l])\<rparr>"
    by (simp only: loop_body_spec if_not_P if_False length_append_singleton)
  then have run: "run_lines t \<lparr>fileLine = counter_after (pre @ [l]), position = length (pre @ [l])\<rparr> rest = Continue st"
    using Cons.prems(2) by simp
  have "ls = (pre @ [l]) @ rest" using Cons.prems(1) by simp
  from Cons.IH[OF this run]
  have ih: "st = \<lparr>fileLine = counter_after ls, position = length ls\<rparr>"
    "\<forall>i. length (pre @ [l]) \<le> i \<longrightarrow> \<not> added_at ls t i" by auto
  have "\<not> added_at ls t i" if "length pre \<le> i" for i
  proof (cases "i = length pre")
    case True then show ?thesis using nohit here by simp
  next
    case False then show ?thesis using ih(2) that by simp
  qed
  then show ?case using ih(1) by auto
qed

lemma counter_after_Nil: "counter_after [] = 0"
  by (simp add: counter_after_def hunk_seed_def since_header_def)

lemma first_added_at_iff:
  "first_added_at ls L i \<longleftrightarrow> added_at ls L i \<and> (\<forall>j<i. \<not> added_at ls L j)"
  by (auto simp: first_added_at_def filter_empty_conv)

lemma corresponds_to_added_iff:
  "corresponds_to_added ls L \<longleftrightarrow> (\<exists>i. added_at ls L i)"
  by (auto simp: corresponds_to_added_def filter_empty_conv added_at_def)

lemma scan_Return:
  assumes "run_lines t initial_state ls = Return p"
  shows "1 \<le> p \<and> p \<le> length ls \<and> first_added_at ls t (p - 1)"
proof -
  have "run_lines t \<lparr>fileLine = counter_after [], position = length ([]::string list)\<rparr> ls = Return p"
    using assms by (simp add: initial_state_def counter_after_Nil)
  from run_lines_Return[OF _ this, of ls] show ?thesis
    by (auto simp: first_added_at_iff)
qed

lemma scan_Continue:
  assumes "run_lines t initial_state ls = Continue st"
  shows "st = \<lparr>fileLine = counter_after ls, position = length ls\<rparr> \<and> \<not> corresponds_to_added ls t"
proof -
  have "run_lines t \<lparr>fileLine = counter_after [], position = length ([]::string list)\<rparr> ls = Continue st"
    using assms by (simp add: initial_state_def counter_after_Nil)
  from run_lines_Continue[OF _ this, of ls] show ?thesis
    by (auto simp: corresponds_to_added_iff)
qed

lemma empty_patch_no_added: "\<not> corresponds_to_added (split_nl []) L"
  by (simp add: corresponds_to_added_def added_at_def is_added_def startsWith_def)

lemma getDiffPosition_Some:
  assumes "getDiffPosition (Some P) L = Some p"
  shows "1 \<le> p \<and> p \<le> length (split_nl P) \<and> first_added_at (split_nl P) L (p - 1)"
  using assms scan_Return[of L "split_nl P" p]
  by (auto simp: getDiffPosition_def split: if_splits step_result.splits)

lemma getDiffPosition_None:
  assumes "getDiffPosition (Some P) L = None"
  shows "\<not> corresponds_to_added (split_nl P) L"
proof (cases "P = []")
  case True
  then show ?thesis using empty_patch_no_added by simp
next
  case False
  then obtain st where "run_lines L initial_state (split_nl P) = Continue st"
    using assms by (auto simp: getDiffPosition_def split: step_result.splits)
  then show ?thesis using scan_Continue by blast
qed

subsection \<open>The printed patch and the resolver's parser\<close>

lemma digit_cases: "d < 10 \<Longrightarrow> d = 0 \<or> d = 1 \<or> d = 2 \<or> d = 3 \<or> d = 4 \<or> d = 5 \<or> d = 6 \<or> d = 7 \<or> d = 8 \<or> d = (9::nat)"
  by arith

lemma digit_char_digit: "d < 10 \<Longrightarrow> is_digit (digit_char d)"
  using digit_cases[of d] by (auto simp: digit_char_def is_digit_def)

lemma digit_char_value: "d < 10 \<Longrightarrow> digit_value (digit_char d) = int d"
  using digit_cases[of d] by (auto simp: digit_char_def digit_value_def)

lemma show_nat_digits: "\<forall>c \<in> set (show_nat n). is_digit c"
proof (induction n rule: show_nat.induct)
  case (1 n)
  show ?case
  proof (cases "n < 10")
    case True
    then show ?thesis by (subst show_nat.simps) (simp add: digit_char_digit)
  next
    case False
    then show ?thesis using 1 by (subst show_nat.simps) (simp add: digit_char_digit)
  qed
qed

lemma show_nat_nonempty: "show_nat n \<noteq> []"
  by (subst show_nat.simps) simp

lemma parseInt_snoc: "parseInt (ds @ [c]) = 10 * parseInt ds + digit_value c"
  by (simp add: parseInt_def)

lemma parseInt_show_nat: "parseInt (show_nat n) = int n"
proof (induction n rule: show_nat.induct)
  case (1 n)
  show ?case
  proof (cases "n < 10")
    case True
    then show ?thesis by (subst show_nat.simps) (simp add: parseInt_def digit_char_value)
  next
    case False
    then have "parseInt (show_nat (n div 10)) = int (n div 10)" using 1 by simp
    then have "parseInt (show_nat n) = 10 * int (n div 10) + int (n mod 10)"
      using False by (subst show_nat.simps) (simp add: parseInt_snoc digit_char_value)
    then show ?thesis by (simp add: zdiv_int zmod_int)
  qed
qed

lemma takeWhile_digits:
  "\<forall>c \<in> set ds. is_digit c \<Longrightarrow> \<not> is_digit x \<Longrightarrow> takeWhile is_digit (ds @ x # r) = ds"
  by (induction ds) auto

lemma dropWhile_digits:
  "\<forall>c \<in> set ds. is_digit c \<Longrightarrow> \<not> is_digit x \<Longrightarrow> dropWhile is_digit (ds @ x # r) = x # r"
  by (induction ds) auto

lemma not_digit: "\<not> is_digit CHR '' ''" "\<not> is_digit CHR '',''"
  by (simp_all add: is_digit_def)

lemma match_new_start_range:
  "match_new_start ('' +'' @ range_text c n @ '' @@'' @ tail) = Some (show_nat c)"
proof (cases n)
  case None
  have "takeWhile is_digit (show_nat c @ CHR '' '' # (''@@'' @ tail)) = show_nat c"
    by (rule takeWhile_digits) (simp_all add: show_nat_digits not_digit)
  then show ?thesis
    using None by (simp add: match_new_start_def startsWith_def range_text_def show_nat_nonempty)
next
  case (Some k)
  have "takeWhile is_digit (show_nat c @ CHR '','' # (show_nat k @ '' @@'' @ tail)) = show_nat c"
    by (rule takeWhile_digits) (simp_all add: show_nat_digits not_digit)
  then show ?thesis
    using Some by (simp add: match_new_start_def startsWith_def range_text_def show_nat_nonempty)
qed

lemma match_here_hunk:
  "match_here (render (Hunk a m c n tail)) = Some (show_nat c)"
proof (cases m)
  case None
  let ?r = "CHR '' '' # (''+'' @ range_text c n @ '' @@'' @ tail)"
  have t: "takeWhile is_digit (show_nat a @ ?r) = show_nat a"
    by (rule takeWhile_digits) (simp_all add: show_nat_digits not_digit)
  have d: "dropWhile is_digit (show_nat a @ ?r) = ?r"
    by (rule dropWhile_digits) (simp_all add: show_nat_digits not_digit)
  have r: "match_new_start ?r = Some (show_nat c)"
    using match_new_start_range[of c n tail] by simp
  have "drop 4 (render (Hunk a m c n tail)) = show_nat a @ ?r"
    using None by (simp add: range_text_def)
  then show ?thesis
    using t d r by (simp add: match_here_def startsWith_def show_nat_nonempty Let_def)
next
  case (Some k)
  let ?r2 = "CHR '' '' # (''+'' @ range_text c n @ '' @@'' @ tail)"
  let ?r = "CHR '','' # (show_nat k @ ?r2)"
  have t: "takeWhile is_digit (show_nat a @ ?r) = show_nat a"
    by (rule takeWhile_digits) (simp_all add: show_nat_digits not_digit)
  have d: "dropWhile is_digit (show_nat a @ ?r) = ?r"
    by (rule dropWhile_digits) (simp_all add: show_nat_digits not_digit)
  have t2: "takeWhile is_digit (show_nat k @ ?r2) = show_nat k"
    by (rule takeWhile_digits) (simp_all add: show_nat_digits not_digit)
  have d2: "dropWhile is_digit (show_nat k @ ?r2) = ?r2"
    by (rule dropWhile_digits) (simp_all add: show_nat_digits not_digit)
  have r: "match_new_start ?r2 = Some (show_nat c)"
    using match_new_start_range[of c n tail] by simp
  have "drop 4 (render (Hunk a m c n tail)) = show_nat a @ ?r"
    using Some by (simp add: range_text_def)
  then show ?thesis
    using t d t2 d2 r
    by (simp add: match_here_def startsWith_def show_nat_nonempty Let_def)
qed

lemma regex_exec_at_start: "match_here s = Some g \<Longrightarrow> s \<noteq> [] \<Longrightarrow> regex_exec s = Some g"
  by (cases s) simp_all

lemma header_start_hunk: "header_start (render (Hunk a m c n tail)) = Some (int c)"
proof -
  have "regex_exec (render (Hunk a m c n tail)) = Some (show_nat c)"
    by (rule regex_exec_at_start[OF match_here_hunk]) simp
  then show ?thesis by (simp add: header_start_def startsWith_def parseInt_show_nat)
qed

lemma header_start_render: "header_start (render e) = (if is_hunk e then Some (int (new_start e)) else None)"
proof (cases e)
  case (Hunk a m c n tail)
  then show ?thesis by (simp only: header_start_hunk is_hunk.simps new_start.simps if_True)
qed (simp_all add: header_start_def startsWith_def)

lemma is_hunk_header_render: "is_hunk_header (render e) = is_hunk e"
  by (simp add: is_hunk_header_def header_start_render)

lemma is_added_render: "is_added (render e) = is_added_entry e"
  by (cases e) (simp_all add: is_added_def startsWith_def)

lemma in_new_file_render: "in_new_file (render e) = of_new_file e"
  by (cases e) (simp_all add: in_new_file_def is_added_def is_context_def is_removed_def startsWith_def)

lemma counter_after_render:
  "counter_after (map render pre) =
     (case dropWhile (\<lambda>e. \<not> is_hunk e) (rev pre) of
        [] \<Rightarrow> 0
      | h # _ \<Rightarrow> int (new_start h) - 1) +
     int (length (filter of_new_file (takeWhile (\<lambda>e. \<not> is_hunk e) (rev pre))))"
proof -
  have dw: "dropWhile (\<lambda>l. \<not> is_hunk_header l) (rev (map render pre)) =
      map render (dropWhile (\<lambda>e. \<not> is_hunk e) (rev pre))"
    by (simp add: rev_map dropWhile_map comp_def is_hunk_header_render)
  have tw: "takeWhile (\<lambda>l. \<not> is_hunk_header l) (rev (map render pre)) =
      map render (takeWhile (\<lambda>e. \<not> is_hunk e) (rev pre))"
    by (simp add: rev_map takeWhile_map comp_def is_hunk_header_render)
  have seed: "hunk_seed (map render pre) =
      (case dropWhile (\<lambda>e. \<not> is_hunk e) (rev pre) of [] \<Rightarrow> 0 | h # _ \<Rightarrow> int (new_start h) - 1)"
  proof (cases "dropWhile (\<lambda>e. \<not> is_hunk e) (rev pre)")
    case Nil
    then show ?thesis by (simp only: hunk_seed_def dw list.map list.case)
  next
    case (Cons h rest)
    then have "is_hunk h" using hd_dropWhile[of "\<lambda>e. \<not> is_hunk e" "rev pre"] by simp
    then show ?thesis
      by (simp only: hunk_seed_def dw Cons list.map list.case header_start_render if_True
          option.case)
  qed
  have cnt: "length (filter in_new_file (since_header (map render pre))) =
      length (filter of_new_file (takeWhile (\<lambda>e. \<not> is_hunk e) (rev pre)))"
    by (simp add: since_header_def tw filter_map comp_def in_new_file_render)
  show ?thesis by (simp add: counter_after_def seed cnt)
qed

lemma new_file_line_render: "new_file_line (map render es) i = entry_number es i"
  by (simp only: new_file_line_def entry_number_def take_map counter_after_render)

lemma added_at_render:
  "added_at (map render es) L i \<longleftrightarrow> i < length es \<and> numbered_added es L i"
  by (auto simp: added_at_def numbered_added_def new_file_line_render is_added_render)

lemma split_nl_single: "CHR ''\<newline>'' \<notin> set l \<Longrightarrow> split_nl l = [l]"
  by (induction l) auto

lemma split_nl_first:
  "CHR ''\<newline>'' \<notin> set l \<Longrightarrow> split_nl (l @ CHR ''\<newline>'' # rest) = l # split_nl rest"
  by (induction l) auto

lemma split_nl_join:
  "ls \<noteq> [] \<Longrightarrow> \<forall>l \<in> set ls. CHR ''\<newline>'' \<notin> set l \<Longrightarrow> split_nl (join_lines ls) = ls"
proof (induction ls rule: join_lines.induct)
  case 1
  then show ?case by simp
next
  case (2 l)
  then show ?case by (simp add: split_nl_single)
next
  case (3 l k ls)
  then show ?case by (simp add: split_nl_first)
qed

lemma show_nat_no_newline: "CHR ''\<newline>'' \<notin> set (show_nat n)"
proof
  assume "CHR ''\<newline>'' \<in> set (show_nat n)"
  then have "is_digit CHR ''\<newline>''" using show_nat_digits by blast
  then show False by (simp add: is_digit_def)
qed

lemma render_no_newline:
  "CHR ''\<newline>'' \<notin> set (entry_text e) \<Longrightarrow> CHR ''\<newline>'' \<notin> set (render e)"
  by (cases e) (auto simp: range_text_def show_nat_no_newline split: option.splits)

lemma render_nonempty: "render e \<noteq> []"
  by (cases e) simp_all

lemma join_lines_nonempty: "ls \<noteq> [] \<Longrightarrow> hd ls \<noteq> [] \<Longrightarrow> join_lines ls \<noteq> []"
  by (induction ls rule: join_lines.induct) simp_all

lemma lines_of_patch_text:
  assumes "es \<noteq> []" "single_lines es"
  shows "split_nl (patch_text es) = map render es"
proof -
  have "\<forall>l \<in> set (map render es). CHR ''\<newline>'' \<notin> set l"
    using assms(2) by (auto simp: single_lines_def filter_empty_conv render_no_newline)
  then show ?thesis
    using assms(1) by (simp add: patch_text_def split_nl_join)
qed

lemma patch_text_nonempty: "es \<noteq> [] \<Longrightarrow> patch_text es \<noteq> []"
  unfolding patch_text_def
  by (rule join_lines_nonempty) (simp_all add: render_nonempty hd_map)

lemma find_upt_Some:
  "find P [0..<n] = Some i \<longleftrightarrow> i < n \<and> P i \<and> (\<forall>j<i. \<not> P j)"
  by (auto simp: find_Some_iff)

lemma find_upt_None: "find P [0..<n] = None \<longleftrightarrow> (\<forall>i<n. \<not> P i)"
  by (auto simp: find_None_iff)

lemma expected_position_Some:
  "expected_position es L = Some p \<longleftrightarrow>
     1 \<le> p \<and> p \<le> length es \<and> numbered_added es L (p - 1) \<and>
     (\<forall>j<p - 1. \<not> numbered_added es L j)"
proof
  assume "expected_position es L = Some p"
  then obtain i where "find (numbered_added es L) [0..<length es] = Some i" "p = Suc i"
    by (auto simp: expected_position_def)
  then show "1 \<le> p \<and> p \<le> length es \<and> numbered_added es L (p - 1) \<and>
     (\<forall>j<p - 1. \<not> numbered_added es L j)"
    by (auto simp: find_upt_Some)
next
  assume r: "1 \<le> p \<and> p \<le> length es \<and> numbered_added es L (p - 1) \<and>
     (\<forall>j<p - 1. \<not> numbered_added es L j)"
  then have "find (numbered_added es L) [0..<length es] = Some (p - 1)"
    unfolding find_upt_Some by auto
  then show "expected_position es L = Some p"
    using r by (simp add: expected_position_def)
qed

lemma expected_position_None:
  "expected_position es L = None \<longleftrightarrow> (\<forall>i<length es. \<not> numbered_added es L i)"
  by (simp add: expected_position_def find_upt_None)

text \<open>
  Claim C1 as stated fails: in a patch with a context line before its first hunk header,
  the added line numbered 5 is the second line counted from the first hunk header, and
  the resolver returns position 3; only two lines exist from the first hunk header on.
\<close>

theorem position_not_from_first_header:
  "patch_text preamble_entries = '' ctx\<newline>@@ -5 +5 @@\<newline>+x'' \<and>
   numbered_added preamble_entries 5 2 \<and>
   getDiffPosition (Some (patch_text preamble_entries)) 5 = Some 3 \<and>
   length (lines_from_first_header (split_nl (patch_text preamble_entries))) = 2"
  by code_simp

text \<open>
  Claim C1, as amended. For every patch made of hunk-header, added, removed and context
  lines, with line numbers up to \<open>2 ^ 53\<close>, and for every target line: the resolver
  returns position \<open>p\<close> exactly when line \<open>p\<close> of the patch, counted from 1 at the
  first line of the patch, is an added line whose new-file number is the target and no
  earlier added line has that number; it returns not found exactly when no added line
  has that number, also when the target is the number of a context line only.
\<close>

theorem resolver_on_patch_entries:
  assumes "single_lines es" "numbers_exact es"
  shows "getDiffPosition (Some (patch_text es)) L = expected_position es L \<and>
    (es \<noteq> [] \<longrightarrow> split_nl (patch_text es) = map render es) \<and>
    (getDiffPosition (Some (patch_text es)) L = Some p \<longleftrightarrow>
       1 \<le> p \<and> p \<le> length es \<and> numbered_added es L (p - 1) \<and>
       (\<forall>j<p - 1. \<not> numbered_added es L j)) \<and>
    (getDiffPosition (Some (patch_text es)) L = None \<longleftrightarrow>
       (\<forall>i<length es. \<not> numbered_added es L i))"
proof -
  have eq: "getDiffPosition (Some (patch_text es)) L = expected_position es L"
  proof (cases "es = []")
    case True
    then show ?thesis
      by (simp add: patch_text_def getDiffPosition_def expected_position_def)
  next
    case False
    then have ls: "split_nl (patch_text es) = map render es"
      using assms(1) by (rule lines_of_patch_text)
    show ?thesis
    proof (cases "getDiffPosition (Some (patch_text es)) L")
      case None
      from getDiffPosition_None[OF None]
      have "\<forall>i. \<not> added_at (map render es) L i"
        by (simp add: ls corresponds_to_added_iff)
      then have "\<forall>i<length es. \<not> numbered_added es L i"
        by (simp add: added_at_render)
      then have "expected_position es L = None" by (simp add: expected_position_None)
      then show ?thesis using None by simp
    next
      case (Some q)
      from getDiffPosition_Some[OF Some]
      have r: "1 \<le> q" "q \<le> length es" "added_at (map render es) L (q - 1)"
        "\<forall>j<q - 1. \<not> added_at (map render es) L j"
        by (simp_all add: ls first_added_at_iff)
      have "numbered_added es L (q - 1)" using r(3) by (simp add: added_at_render)
      moreover have "\<forall>j<q - 1. \<not> numbered_added es L j"
      proof (intro allI impI)
        fix j assume "j < q - 1"
        then have "j < length es" "\<not> added_at (map render es) L j" using r by auto
        then show "\<not> numbered_added es L j" by (simp add: added_at_render)
      qed
      ultimately have "expected_position es L = Some q"
        using r(1,2) by (simp add: expected_position_Some)
      then show ?thesis using Some by simp
    qed
  qed
  have lines: "es \<noteq> [] \<longrightarrow> split_nl (patch_text es) = map render es"
    using assms(1) by (simp add: lines_of_patch_text)
  have some: "getDiffPosition (Some (patch_text es)) L = Some p \<longleftrightarrow>
       1 \<le> p \<and> p \<le> length es \<and> numbered_added es L (p - 1) \<and>
       (\<forall>j<p - 1. \<not> numbered_added es L j)"
    by (simp only: eq expected_position_Some)
  have none: "getDiffPosition (Some (patch_text es)) L = None \<longleftrightarrow>
       (\<forall>i<length es. \<not> numbered_added es L i)"
    by (simp only: eq expected_position_None)
  from eq lines some none show ?thesis by blast
qed

theorem resolver_on_patch_entries_witness:
  "single_lines scenario_entries \<and> numbers_exact scenario_entries \<and>
   patch_text scenario_entries = scenario_patch \<and>
   getDiffPosition (Some (patch_text scenario_entries)) 2 = Some 3 \<and>
   numbered_added scenario_entries 2 (3 - 1) \<and>
   getDiffPosition (Some (patch_text scenario_entries)) 1 = None"
proof -
  have a: "single_lines scenario_entries" by code_simp
  have b: "numbers_exact scenario_entries"
    by (simp add: numbers_exact_def scenario_entries_def)
  have c: "patch_text scenario_entries = scenario_patch" by code_simp
  have d: "expected_position scenario_entries 2 = Some 3" by code_simp
  have e: "expected_position scenario_entries 1 = None" by code_simp
  have f: "numbered_added scenario_entries 2 (3 - 1)" by code_simp
  from resolver_on_patch_entries[OF a b, of 2] resolver_on_patch_entries[OF a b, of 1] a b c d e f
  show ?thesis by simp
qed

text \<open>
  Claim C2, as amended. For the patch of scenario A and target line 2 the resolver
  returns position 3: the hunk header is position 1, the context line position 2 and the
  added line position 3.
\<close>

theorem scenario_A_position: "getDiffPosition (Some scenario_patch) 2 = Some 3"
  by code_simp

text \<open>
  Claim C2 as stated (the resolver returns position 2 in scenario A) fails.
\<close>

theorem scenario_A_not_position_2: "getDiffPosition (Some scenario_patch) 2 \<noteq> Some 2"
  by code_simp

lemma added_kind:
  "is_added l \<Longrightarrow> \<not> is_hunk_header l \<and> \<not> is_removed l \<and> \<not> is_context l"
  by (cases l) (auto simp: is_added_def is_hunk_header_def header_start_def is_removed_def
      is_context_def startsWith_def)

text \<open>
  Claim C10. Whenever the resolver returns a position \<open>p\<close>, the patch is present,
  \<open>p\<close> lies between 1 and the number of lines of the patch, and line \<open>p\<close> of the
  patch begins with a plus sign: it is an added line, never a hunk header, a context
  line or a removed line.
\<close>

theorem position_designates_added_line:
  assumes "getDiffPosition given L = Some p"
  shows "\<exists>P. given = Some P \<and> 1 \<le> p \<and> p \<le> length (split_nl P) \<and>
           startsWith (split_nl P ! (p - 1)) ''+'' \<and>
           \<not> is_hunk_header (split_nl P ! (p - 1)) \<and>
           \<not> is_context (split_nl P ! (p - 1)) \<and>
           \<not> is_removed (split_nl P ! (p - 1))"
proof -
  obtain P where P: "given = Some P"
    using assms by (cases given) (auto simp: getDiffPosition_def)
  from getDiffPosition_Some[of P L p] assms P
  have r: "1 \<le> p" "p \<le> length (split_nl P)" "is_added (split_nl P ! (p - 1))"
    by (auto simp: first_added_at_iff added_at_def)
  from added_kind[OF r(3)] r P show ?thesis by (simp add: is_added_def)
qed

theorem position_designates_added_line_witness:
  "getDiffPosition (Some two_hunk_patch) 11 = Some 7 \<and>
   (\<exists>P. Some two_hunk_patch = Some P \<and> (1::nat) \<le> 7 \<and> 7 \<le> length (split_nl P) \<and>
        startsWith (split_nl P ! (7 - 1)) ''+'' \<and>
        \<not> is_hunk_header (split_nl P ! (7 - 1)) \<and>
        \<not> is_context (split_nl P ! (7 - 1)) \<and>
        \<not> is_removed (split_nl P ! (7 - 1)))"
proof -
  have a: "getDiffPosition (Some two_hunk_patch) 11 = Some 7" by code_simp
  from position_designates_added_line[OF a] a show ?thesis by blast
qed

lemma loop_body_position:
  "(case loop_body t st line of
      Continue st' \<Rightarrow> position st' = position st + 1
    | Return p \<Rightarrow> p = position st + 1)"
  by (simp add: loop_body_def Let_def split: option.split)

lemma loop_body_reseed:
  "header_start line = Some n \<Longrightarrow>
   loop_body t st line = Continue \<lparr>fileLine = n - 1, position = position st + 1\<rparr>"
  by (auto simp: loop_body_def header_start_def Let_def split: if_splits option.splits)

lemma run_lines_append:
  "run_lines t st (xs @ ys) =
     (case run_lines t st xs of Return p \<Rightarrow> Return p | Continue st' \<Rightarrow> run_lines t st' ys)"
  by (induction xs arbitrary: st) (auto split: step_result.splits)

lemma run_lines_position:
  "(case run_lines t st ls of
      Continue st' \<Rightarrow> position st' = position st + length ls
    | Return p \<Rightarrow> position st < p \<and> p \<le> position st + length ls)"
proof (induction ls arbitrary: st)
  case Nil
  then show ?case by simp
next
  case (Cons l ls)
  show ?case
  proof (cases "loop_body t st l")
    case (Continue st1)
    then have "position st1 = position st + 1"
      using loop_body_position[where t=t and st=st and line=l] by simp
    then show ?thesis using Cons.IH[of st1] Continue by (auto split: step_result.splits)
  next
    case (Return p)
    then show ?thesis using loop_body_position[where t=t and st=st and line=l] by simp
  qed
qed

text \<open>
  Claim C7. Every iteration of the scan, whatever the line is, leaves the position
  counter (or returns a position) exactly one above the counter it started with. After
  any prefix of the patch that has been scanned without a match the position counter is
  the number of lines of the prefix, however many hunk headers it holds. A hunk header
  printed from its ranges, with a new-range start up to \<open>2 ^ 53\<close>, is read back with
  that start (not the old-range start), sets \<open>fileLine\<close> to the new-range start minus 1
  and continues the position count without resetting it; the same holds for any line
  in which the resolver's pattern finds a new-range start.
\<close>

theorem position_counts_every_line:
  "(case loop_body t st line of
      Continue st' \<Rightarrow> position st' = position st + 1
    | Return p \<Rightarrow> p = position st + 1) \<and>
   (\<forall>n. header_start line = Some n \<longrightarrow>
      loop_body t st line = Continue \<lparr>fileLine = n - 1, position = position st + 1\<rparr>) \<and>
   (\<forall>st' n. run_lines t initial_state pre = Continue st' \<and> header_start h = Some n \<longrightarrow>
      position st' = length pre \<and>
      run_lines t initial_state (pre @ [h]) =
        Continue \<lparr>fileLine = n - 1, position = length pre + 1\<rparr>) \<and>
   (c \<le> 9007199254740992 \<longrightarrow>
      header_start (render (Hunk a m c k tail)) = Some (int c) \<and>
      loop_body t st (render (Hunk a m c k tail)) =
        Continue \<lparr>fileLine = int c - 1, position = position st + 1\<rparr> \<and>
      (\<forall>st'. run_lines t initial_state pre = Continue st' \<longrightarrow>
         run_lines t initial_state (pre @ [render (Hunk a m c k tail)]) =
           Continue \<lparr>fileLine = int c - 1, position = length pre + 1\<rparr>))"
proof (intro conjI allI impI)
  show "case loop_body t st line of
      Continue st' \<Rightarrow> position st' = position st + 1
    | Return p \<Rightarrow> p = position st + 1" by (rule loop_body_position)
next
  fix n assume "header_start line = Some n"
  then show "loop_body t st line = Continue \<lparr>fileLine = n - 1, position = position st + 1\<rparr>"
    by (rule loop_body_reseed)
next
  fix st' n assume a: "run_lines t initial_state pre = Continue st' \<and> header_start h = Some n"
  then show "position st' = length pre"
    using run_lines_position[where t=t and st=initial_state and ls=pre]
    by (simp add: initial_state_def)
next
  fix st' n assume a: "run_lines t initial_state pre = Continue st' \<and> header_start h = Some n"
  then have p: "position st' = length pre"
    using run_lines_position[where t=t and st=initial_state and ls=pre]
    by (simp add: initial_state_def)
  show "run_lines t initial_state (pre @ [h]) =
        Continue \<lparr>fileLine = n - 1, position = length pre + 1\<rparr>"
    using a p by (simp add: run_lines_append loop_body_reseed)
next
  show "header_start (render (Hunk a m c k tail)) = Some (int c)"
    by (rule header_start_hunk)
next
  show "loop_body t st (render (Hunk a m c k tail)) =
        Continue \<lparr>fileLine = int c - 1, position = position st + 1\<rparr>"
    by (rule loop_body_reseed[OF header_start_hunk])
next
  fix st' assume a: "run_lines t initial_state pre = Continue st'"
  then have p: "position st' = length pre"
    using run_lines_position[where t=t and st=initial_state and ls=pre]
    by (simp add: initial_state_def)
  show "run_lines t initial_state (pre @ [render (Hunk a m c k tail)]) =
           Continue \<lparr>fileLine = int c - 1, position = length pre + 1\<rparr>"
    using a p by (simp only: run_lines_append step_result.case run_lines.simps
        loop_body_reseed[OF header_start_hunk])
qed

theorem position_counts_every_line_witness:
  "run_lines 12 initial_state (take 4 (map render shifted_entries)) =
     Continue \<lparr>fileLine = 3, position = 4\<rparr> \<and>
   render (Hunk 10 (Some 1) 11 (Some 2) []) = ''@@ -10,1 +11,2 @@'' \<and>
   header_start ''@@ -10,1 +11,2 @@'' = Some 11 \<and>
   run_lines 12 initial_state (take 4 (map render shifted_entries) @ [''@@ -10,1 +11,2 @@'']) =
     Continue \<lparr>fileLine = 11 - 1, position = 4 + 1\<rparr>"
proof -
  let ?pre = "take 4 (map render shifted_entries)"
  let ?h = "render (Hunk 10 (Some 1) 11 (Some 2) [])"
  have a: "run_lines 12 initial_state ?pre = Continue \<lparr>fileLine = 3, position = 4\<rparr>"
    by code_simp
  have b: "?h = ''@@ -10,1 +11,2 @@''" by code_simp
  have c: "(11::nat) \<le> 9007199254740992" by simp
  have d: "length ?pre = 4" by code_simp
  have g: "int 11 = 11" by simp
  note th = position_counts_every_line[where t=12 and st=initial_state and line="[]"
      and pre="?pre" and h="[]" and c=11 and a=10 and m="Some 1" and k="Some 2" and tail="[]"]
  from th c have e: "header_start ?h = Some (int 11)" by blast
  from th c a have f: "run_lines 12 initial_state (?pre @ [?h]) =
      Continue \<lparr>fileLine = int 11 - 1, position = length ?pre + 1\<rparr>" by blast
  from a b e[unfolded b g] f[unfolded b d g] show ?thesis by (intro conjI)
qed

lemma kinds_partition:
  "(counted_without_removed l \<and> \<not> is_removed l \<and> \<not> is_unparsed_marker l) \<or>
   (\<not> counted_without_removed l \<and> is_removed l \<and> \<not> is_unparsed_marker l) \<or>
   (\<not> counted_without_removed l \<and> \<not> is_removed l \<and> is_unparsed_marker l)"
  by (cases l) (auto simp: counted_without_removed_def is_hunk_header_def header_start_def
      is_added_def is_context_def is_removed_def is_unparsed_marker_def startsWith_def)

lemma length_three_way:
  "length xs = length (filter counted_without_removed xs) + length (filter is_removed xs) +
     length (filter is_unparsed_marker xs)"
proof (induction xs)
  case Nil
  then show ?case by simp
next
  case (Cons l xs)
  then show ?case using kinds_partition[of l] by auto
qed

text \<open>
  Claim C6 as stated fails: in a patch of a hunk header, a removed line and an added
  line, the resolver returns position 3 for the added line, while the count that
  leaves removed lines out is 2.
\<close>

theorem removed_lines_not_excluded:
  "getDiffPosition (Some removal_patch) 1 = Some 3 \<and>
   first_added_at (split_nl removal_patch) 1 2 \<and>
   lines_counted counted_without_removed (split_nl removal_patch) 2 = 2"
  by code_simp

text \<open>
  Claim C6, as amended. Every position the resolver returns is the 1-based offset of
  the matched added line counted from the first line of the patch, in which every line
  counts: it is the number of hunk-header, added and context lines up to the matched
  line plus the number of removed lines (and of at-sign lines without ranges) up to it.
\<close>

theorem position_counts_removed_lines:
  assumes "getDiffPosition given L = Some p"
  shows "\<exists>P i. given = Some P \<and> first_added_at (split_nl P) L i \<and>
           p = lines_counted (\<lambda>l. True) (split_nl P) i \<and>
           p = lines_counted counted_without_removed (split_nl P) i +
               lines_counted is_removed (split_nl P) i +
               lines_counted is_unparsed_marker (split_nl P) i"
proof -
  obtain P where P: "given = Some P"
    using assms by (cases given) (auto simp: getDiffPosition_def)
  from getDiffPosition_Some[of P L p] assms P
  have r: "1 \<le> p" "p \<le> length (split_nl P)" "first_added_at (split_nl P) L (p - 1)"
    by auto
  have "lines_counted (\<lambda>l. True) (split_nl P) (p - 1) = p"
    using r by (simp add: lines_counted_def)
  moreover have "lines_counted (\<lambda>l. True) (split_nl P) (p - 1) =
      lines_counted counted_without_removed (split_nl P) (p - 1) +
      lines_counted is_removed (split_nl P) (p - 1) +
      lines_counted is_unparsed_marker (split_nl P) (p - 1)"
    using length_three_way[of "take (Suc (p - 1)) (split_nl P)"]
    by (simp add: lines_counted_def)
  ultimately show ?thesis using P r(3) by metis
qed

theorem position_counts_removed_lines_witness:
  "getDiffPosition (Some removal_patch) 1 = Some 3 \<and>
   (\<exists>P i. Some removal_patch = Some P \<and> first_added_at (split_nl P) 1 i \<and>
           3 = lines_counted (\<lambda>l. True) (split_nl P) i \<and>
           3 = lines_counted counted_without_removed (split_nl P) i +
               lines_counted is_removed (split_nl P) i +
               lines_counted is_unparsed_marker (split_nl P) i)"
proof -
  have a: "getDiffPosition (Some removal_patch) 1 = Some 3" by code_simp
  from position_counts_removed_lines[OF a] a show ?thesis by blast
qed

subsection \<open>Patches without hunk headers\<close>

lemma counter_after_headerless:
  assumes "filter is_hunk_header pre = []"
  shows "counter_after pre = int (length (filter in_new_file pre))"
proof -
  have all: "\<forall>l \<in> set (rev pre). \<not> is_hunk_header l"
    using assms by (auto simp: filter_empty_conv)
  then have tw: "takeWhile (\<lambda>l. \<not> is_hunk_header l) (rev pre) = rev pre"
    by simp
  have dw: "dropWhile (\<lambda>l. \<not> is_hunk_header l) (rev pre) = []"
    using all by simp
  have "length (filter in_new_file (rev pre)) = length (filter in_new_file pre)"
    by (simp add: rev_filter[symmetric])
  then show ?thesis
    by (simp add: counter_after_def hunk_seed_def since_header_def tw dw)
qed

lemma filter_take_headerless:
  "filter is_hunk_header ls = [] \<Longrightarrow> filter is_hunk_header (take k ls) = []"
  by (auto simp: filter_empty_conv dest: in_set_takeD)

lemma count_take_mono:
  "k \<le> m \<Longrightarrow> length (filter Q (take k ls)) \<le> length (filter Q (take m ls))"
proof -
  assume "k \<le> m"
  then have "take k ls = take k (take m ls)" by (simp add: min_def)
  then have "take m ls = take k ls @ drop k (take m ls)"
    by (metis append_take_drop_id)
  then have "filter Q (take m ls) = filter Q (take k ls) @ filter Q (drop k (take m ls))"
    by (metis filter_append)
  then show ?thesis by simp
qed

lemma count_take_strict:
  assumes "i < j" "j < length ls" "Q (ls ! j)"
  shows "length (filter Q (take (Suc i) ls)) < length (filter Q (take (Suc j) ls))"
proof -
  have "take (Suc j) ls = take j ls @ [ls ! j]"
    using assms(2) by (simp add: take_Suc_conv_app_nth)
  then have "length (filter Q (take (Suc j) ls)) = Suc (length (filter Q (take j ls)))"
    using assms(3) by simp
  moreover have "length (filter Q (take (Suc i) ls)) \<le> length (filter Q (take j ls))"
    using assms(1) by (intro count_take_mono) simp
  ultimately show ?thesis by simp
qed

lemma added_at_headerless:
  assumes "no_hunk_header ls"
  shows "added_at ls L i \<longleftrightarrow>
    i < length ls \<and> is_added (ls ! i) \<and> L = int (length (filter in_new_file (take (Suc i) ls)))"
  using assms counter_after_headerless[OF filter_take_headerless, of ls "Suc i"]
  by (auto simp: added_at_def new_file_line_def no_hunk_header_def)

lemma added_at_headerless_unique:
  assumes nh: "no_hunk_header ls" and a: "added_at ls L i" and b: "added_at ls L j"
  shows "i = j"
proof (rule ccontr)
  assume ne: "i \<noteq> j"
  have cnt: "L = int (length (filter in_new_file (take (Suc i) ls)))"
       "L = int (length (filter in_new_file (take (Suc j) ls)))"
    using a b added_at_headerless[OF nh] by auto
  have inf: "in_new_file (ls ! i)" "in_new_file (ls ! j)" "i < length ls" "j < length ls"
    using a b by (auto simp: added_at_def in_new_file_def)
  show False
  proof (cases "i < j")
    case True
    from count_take_strict[where Q=in_new_file, OF True inf(4) inf(2)] cnt show False by simp
  next
    case False
    then have "j < i" using ne by simp
    from count_take_strict[where Q=in_new_file, OF this inf(3) inf(1)] cnt show False by simp
  qed
qed

text \<open>
  Claim C8 as stated fails: a patch of one added line has no hunk header, and the
  resolver returns position 1 for target line 1.
\<close>

theorem headerless_patch_found:
  "no_hunk_header (split_nl ''+a'') \<and> getDiffPosition (Some ''+a'') 1 = Some 1"
  by code_simp

text \<open>
  Claim C8, as amended. An absent or empty patch gives not found for every target. A
  patch with no hunk-header line is scanned with \<open>fileLine\<close> counting from 0: the
  resolver returns position \<open>p\<close> exactly when line \<open>p\<close> is an added line and the
  target is the number of added and context lines among the first \<open>p\<close> lines, and
  not found in every other case.
\<close>

theorem headerless_patch_positions:
  "getDiffPosition None L = None \<and> getDiffPosition (Some []) L = None \<and>
   (no_hunk_header (split_nl P) \<longrightarrow>
      (getDiffPosition (Some P) L = Some p \<longleftrightarrow>
         1 \<le> p \<and> p \<le> length (split_nl P) \<and> is_added (split_nl P ! (p - 1)) \<and>
         L = int (length (filter in_new_file (take p (split_nl P))))))"
proof (intro conjI impI)
  show "getDiffPosition None L = None" by (simp add: getDiffPosition_def)
  show "getDiffPosition (Some []) L = None" by (simp add: getDiffPosition_def)
next
  assume nh: "no_hunk_header (split_nl P)"
  let ?ls = "split_nl P"
  show "getDiffPosition (Some P) L = Some p \<longleftrightarrow>
         1 \<le> p \<and> p \<le> length ?ls \<and> is_added (?ls ! (p - 1)) \<and>
         L = int (length (filter in_new_file (take p ?ls)))"
  proof
    assume "getDiffPosition (Some P) L = Some p"
    from getDiffPosition_Some[OF this]
    have r: "1 \<le> p" "p \<le> length ?ls" "added_at ?ls L (p - 1)"
      by (auto simp: first_added_at_iff)
    then show "1 \<le> p \<and> p \<le> length ?ls \<and> is_added (?ls ! (p - 1)) \<and>
         L = int (length (filter in_new_file (take p ?ls)))"
      using added_at_headerless[OF nh, of L "p - 1"] by simp
  next
    assume rhs: "1 \<le> p \<and> p \<le> length ?ls \<and> is_added (?ls ! (p - 1)) \<and>
         L = int (length (filter in_new_file (take p ?ls)))"
    then have "p - 1 < length ?ls" "Suc (p - 1) = p" by auto
    then have a: "added_at ?ls L (p - 1)"
      using rhs added_at_headerless[OF nh, of L "p - 1"] by simp
    then have "getDiffPosition (Some P) L \<noteq> None"
      using getDiffPosition_None[of P L] by (auto simp: corresponds_to_added_iff)
    then obtain q where q: "getDiffPosition (Some P) L = Some q" by auto
    from getDiffPosition_Some[OF q]
    have r: "1 \<le> q" "added_at ?ls L (q - 1)" by (auto simp: first_added_at_iff)
    from added_at_headerless_unique[OF nh a r(2)] have "p - 1 = q - 1" .
    moreover have "1 \<le> p" using rhs by simp
    ultimately have "p = q" using r(1) by arith
    then show "getDiffPosition (Some P) L = Some p" using q by simp
  qed
qed

theorem headerless_patch_positions_witness:
  "no_hunk_header (split_nl '' a\<newline>+b'') \<and>
   getDiffPosition (Some '' a\<newline>+b'') 2 = Some 2"
proof -
  have nh: "no_hunk_header (split_nl '' a\<newline>+b'')" by code_simp
  have rhs: "(1::nat) \<le> 2 \<and> 2 \<le> length (split_nl '' a\<newline>+b'') \<and>
      is_added (split_nl '' a\<newline>+b'' ! (2 - 1)) \<and>
      (2::int) = int (length (filter in_new_file (take 2 (split_nl '' a\<newline>+b''))))"
    by code_simp
  from headerless_patch_positions[of 2 "'' a\<newline>+b''" 2] nh rhs
  show ?thesis by blast
qed

section \<open>Properties of the sanitizer\<close>

lemma remove_all_Nil: "remove_all pat [] = []"
  by (simp add: remove_all.simps)

lemma remove_all_match:
  "pat \<noteq> [] \<Longrightarrow> s \<noteq> [] \<Longrightarrow> startsWith s pat \<Longrightarrow>
   remove_all pat s = remove_all pat (drop (length pat) s)"
  by (subst remove_all.simps) simp

lemma remove_all_skip:
  "\<not> startsWith (c # cs) pat \<Longrightarrow> remove_all pat (c # cs) = c # remove_all pat cs"
  by (subst remove_all.simps) simp

lemma startsWith_append_long:
  "length pat \<le> length s \<Longrightarrow> startsWith (s @ z) pat = startsWith s pat"
  by (simp add: startsWith_def)

lemma startsWith_self: "startsWith (pat @ s) pat"
  by (simp add: startsWith_def)

lemma startsWith_length: "startsWith s pat \<Longrightarrow> length pat \<le> length s"
  by (metis startsWith_def length_take min.cobounded2 min.commute)

lemma remove_all_prefix:
  "pat \<noteq> [] \<Longrightarrow> remove_all pat (pat @ s) = remove_all pat s"
  using remove_all_match[of pat "pat @ s"] by (simp add: startsWith_self)

lemma remove_all_append_suffix:
  assumes pat: "pat \<noteq> []"
    and straddle: "\<And>x. length x < length pat \<Longrightarrow> \<not> startsWith (x @ z) pat"
    and z: "remove_all pat z = z"
  shows "remove_all pat (s @ z) = remove_all pat s @ z"
proof (induction s rule: length_induct)
  case (1 s)
  show ?case
  proof (cases s)
    case Nil
    then show ?thesis by (simp add: z remove_all_Nil)
  next
    case (Cons c cs)
    show ?thesis
    proof (cases "startsWith s pat")
      case True
      then have len: "length pat \<le> length s" by (rule startsWith_length)
      then have sw: "startsWith (s @ z) pat" using True by (simp add: startsWith_append_long)
      have shorter: "length (drop (length pat) s) < length s"
        using pat Cons by simp
      have a: "remove_all pat (s @ z) = remove_all pat (drop (length pat) (s @ z))"
        using remove_all_match[OF pat _ sw] Cons by simp
      have b: "drop (length pat) (s @ z) = drop (length pat) s @ z" using len by simp
      have c: "remove_all pat (drop (length pat) s @ z) = remove_all pat (drop (length pat) s) @ z"
        using "1.IH" shorter by blast
      have d: "remove_all pat s = remove_all pat (drop (length pat) s)"
        using remove_all_match[OF pat _ True] Cons by simp
      show ?thesis by (simp only: a b c d)
    next
      case False
      have nsw: "\<not> startsWith (s @ z) pat"
      proof (cases "length pat \<le> length s")
        case True
        then show ?thesis using False by (simp add: startsWith_append_long)
      next
        case False
        then show ?thesis using straddle[of s] by simp
      qed
      have a: "remove_all pat (s @ z) = c # remove_all pat (cs @ z)"
        using remove_all_skip[of c "cs @ z" pat] nsw Cons by simp
      have b: "remove_all pat (cs @ z) = remove_all pat cs @ z"
        using "1.IH" Cons by simp
      have c: "remove_all pat s = c # remove_all pat cs"
        using remove_all_skip[of c cs pat] False Cons by simp
      show ?thesis by (simp add: a b c)
    qed
  qed
qed

lemma fence_json_chars:
  "fence_json = [CHR 0x60, CHR 0x60, CHR 0x60, CHR ''j'', CHR ''s'', CHR ''o'', CHR ''n'']"
  by (simp add: fence_json_def fence_def)

lemma startsWith_nth:
  "startsWith s pat \<Longrightarrow> i < length pat \<Longrightarrow> s ! i = pat ! i"
  by (metis startsWith_def nth_take)

lemma no_straddle_fence:
  assumes "length x < length fence_json"
  shows "\<not> startsWith (x @ fence) fence_json"
proof
  assume sw: "startsWith (x @ fence) fence_json"
  have l7: "length fence_json = 7" by (simp add: fence_json_chars)
  from startsWith_length[OF sw] have "7 \<le> length x + 3" by (simp add: l7 fence_def)
  then have ge: "4 \<le> length x" by simp
  have "(x @ fence) ! 6 = fence_json ! 6"
    using startsWith_nth[OF sw, of 6] by (simp add: l7)
  moreover have "(x @ fence) ! 6 = fence ! (6 - length x)"
    using assms by (simp add: nth_append l7)
  moreover have "fence ! (6 - length x) = CHR 0x60"
  proof -
    have "6 - length x < 3" using ge by simp
    then have "6 - length x = 0 \<or> 6 - length x = 1 \<or> 6 - length x = 2" by arith
    then show ?thesis by (auto simp: fence_def)
  qed
  ultimately show False by (simp add: fence_json_chars)
qed

lemma remove_fence_json_fence: "remove_all fence_json fence = fence"
  by (simp add: fence_def fence_json_chars remove_all_skip remove_all_Nil startsWith_def)

lemma remove_fence_json_suffix:
  "remove_all fence_json (s @ fence) = remove_all fence_json s @ fence"
  by (rule remove_all_append_suffix)
     (simp_all add: fence_json_chars[symmetric] no_straddle_fence remove_fence_json_fence,
      simp add: fence_json_chars)

lemma fence_nonempty: "fence \<noteq> []" "fence_json \<noteq> []"
  by (simp_all add: fence_def fence_json_def)

lemma short_before_fence:
  assumes "length t < 3" "startsWith (t @ fence) fence"
  shows "t @ fence = fence @ t"
proof -
  consider "t = []" | a where "t = [a]" | a b where "t = [a, b]"
    using assms(1) by (cases t; cases "tl t"; cases "tl (tl t)") auto
  then show ?thesis
    using assms(2) by cases (auto simp: startsWith_def fence_def)
qed

lemma remove_fence_suffix: "remove_all fence (t @ fence) = remove_all fence t"
proof (induction t rule: length_induct)
  case (1 t)
  show ?case
  proof (cases t)
    case Nil
    have "remove_all fence fence = remove_all fence (drop (length fence) fence)"
      by (rule remove_all_match) (simp_all add: fence_nonempty startsWith_def)
    then show ?thesis using Nil by (simp add: remove_all_Nil)
  next
    case (Cons c cs)
    show ?thesis
    proof (cases "startsWith t fence")
      case True
      then have len: "length fence \<le> length t" by (rule startsWith_length)
      then have sw: "startsWith (t @ fence) fence" using True by (simp add: startsWith_append_long)
      have shorter: "length (drop (length fence) t) < length t"
        using Cons by (simp add: fence_def)
      have a: "remove_all fence (t @ fence) = remove_all fence (drop (length fence) (t @ fence))"
        using remove_all_match[OF fence_nonempty(1) _ sw] Cons by simp
      have b: "drop (length fence) (t @ fence) = drop (length fence) t @ fence" using len by simp
      have c: "remove_all fence (drop (length fence) t @ fence) = remove_all fence (drop (length fence) t)"
        using "1.IH" shorter by blast
      have d: "remove_all fence t = remove_all fence (drop (length fence) t)"
        using remove_all_match[OF fence_nonempty(1) _ True] Cons by simp
      show ?thesis by (simp only: a b c d)
    next
      case False
      show ?thesis
      proof (cases "startsWith (t @ fence) fence")
        case True
        have "length t < 3"
        proof (rule ccontr)
          assume "\<not> length t < 3"
          then have "length fence \<le> length t" by (simp add: fence_def)
          then show False using True False by (simp add: startsWith_append_long)
        qed
        then have "t @ fence = fence @ t" using True by (rule short_before_fence)
        then show ?thesis by (simp add: remove_all_prefix fence_nonempty)
      next
        case nsw: False
        have a: "remove_all fence (t @ fence) = c # remove_all fence (cs @ fence)"
          using remove_all_skip[of c "cs @ fence" fence] nsw Cons by simp
        have b: "remove_all fence (cs @ fence) = remove_all fence cs"
          using "1.IH" Cons by simp
        have c: "remove_all fence t = c # remove_all fence cs"
          using remove_all_skip[of c cs fence] False Cons by simp
        show ?thesis by (simp add: a b c)
      qed
    qed
  qed
qed

lemma strip_wrap_fenced:
  "remove_all fence (remove_all fence_json (wrap_fenced s)) =
   remove_all fence (remove_all fence_json s)"
  by (simp add: wrap_fenced_def remove_all_prefix fence_nonempty remove_fence_json_suffix
      remove_fence_suffix)

lemma no_straddle_newline:
  assumes "length x < length pat" "CHR ''\<newline>'' \<noteq> last pat" "pat \<noteq> []"
  shows "\<not> startsWith (x @ ''\<newline>'') pat"
proof
  assume sw: "startsWith (x @ ''\<newline>'') pat"
  from startsWith_length[OF sw] assms(1) have l: "length pat = Suc (length x)" by simp
  have "(x @ ''\<newline>'') ! length x = pat ! length x"
    using startsWith_nth[OF sw, of "length x"] assms(1) by simp
  moreover have "pat ! length x = last pat"
    using l assms(3) by (simp add: last_conv_nth)
  ultimately show False using assms(2) by simp
qed

lemma remove_all_newline_suffix:
  assumes "pat \<noteq> []" "CHR ''\<newline>'' \<noteq> last pat" "CHR ''\<newline>'' \<noteq> hd pat"
  shows "remove_all pat (s @ ''\<newline>'') = remove_all pat s @ ''\<newline>''"
proof (rule remove_all_append_suffix[OF assms(1)])
  show "\<not> startsWith (x @ ''\<newline>'') pat" if "length x < length pat" for x
    using no_straddle_newline[OF that assms(2) assms(1)] .
  have "\<not> startsWith ''\<newline>'' pat"
    using assms(1,3) by (cases pat) (auto simp: startsWith_def)
  then show "remove_all pat ''\<newline>'' = ''\<newline>''"
    by (simp add: remove_all_skip remove_all_Nil)
qed

lemma remove_all_newline_prefix:
  assumes "pat \<noteq> []" "CHR ''\<newline>'' \<noteq> hd pat"
  shows "remove_all pat (CHR ''\<newline>'' # s) = CHR ''\<newline>'' # remove_all pat s"
proof -
  have "\<not> startsWith (CHR ''\<newline>'' # s) pat"
    using assms by (cases pat) (auto simp: startsWith_def)
  then show ?thesis by (rule remove_all_skip)
qed

lemma fence_ends:
  "CHR ''\<newline>'' \<noteq> last fence" "CHR ''\<newline>'' \<noteq> hd fence"
  "CHR ''\<newline>'' \<noteq> last fence_json" "CHR ''\<newline>'' \<noteq> hd fence_json"
  by (simp_all add: fence_def fence_json_def)

lemma strip_wrap_fenced_lines:
  "remove_all fence (remove_all fence_json (wrap_fenced_lines s)) =
   CHR ''\<newline>'' # remove_all fence (remove_all fence_json s) @ ''\<newline>''"
proof -
  have "wrap_fenced_lines s = wrap_fenced (CHR ''\<newline>'' # s @ ''\<newline>'')"
    by (simp add: wrap_fenced_lines_def wrap_fenced_def)
  then have "remove_all fence (remove_all fence_json (wrap_fenced_lines s)) =
      remove_all fence (remove_all fence_json (CHR ''\<newline>'' # s @ ''\<newline>''))"
    by (simp only: strip_wrap_fenced)
  also have "\<dots> = remove_all fence (CHR ''\<newline>'' # remove_all fence_json s @ ''\<newline>'')"
    by (simp add: remove_all_newline_prefix remove_all_newline_suffix fence_nonempty fence_ends)
  also have "\<dots> = CHR ''\<newline>'' # remove_all fence (remove_all fence_json s) @ ''\<newline>''"
    by (simp add: remove_all_newline_prefix remove_all_newline_suffix fence_nonempty fence_ends)
  finally show ?thesis .
qed

lemma newline_white: "is_white_space CHR ''\<newline>''"
  by (simp add: is_white_space_def)

lemma trim_lines: "trim (CHR ''\<newline>'' # t @ ''\<newline>'') = trim t"
proof -
  have hd: "dropWhile is_white_space (CHR ''\<newline>'' # t @ ''\<newline>'') =
      dropWhile is_white_space (t @ ''\<newline>'')"
    by (simp add: newline_white)
  show ?thesis
  proof (cases "\<forall>c \<in> set t. is_white_space c")
    case True
    then have e1: "dropWhile is_white_space (t @ ''\<newline>'') = []"
      by (simp add: newline_white)
    have e2: "dropWhile is_white_space t = []" using True by simp
    show ?thesis by (simp only: trim_def hd e1 e2)
  next
    case False
    then have e: "dropWhile is_white_space (t @ ''\<newline>'') =
        dropWhile is_white_space t @ ''\<newline>''"
      by auto
    have "rev (dropWhile is_white_space t @ ''\<newline>'') =
        CHR ''\<newline>'' # rev (dropWhile is_white_space t)" by simp
    then show ?thesis by (simp only: trim_def hd e) (simp add: newline_white)
  qed
qed

text \<open>
  Claim C9. For every model output text, the text wrapped in a fence with the language
  tag \<open>json\<close> before it and a fence after it (on the same lines, or on lines of their
  own) is cleaned to the same string as the text itself, so the sanitizer yields the same
  parsed result for both, whatever the parser answers.
\<close>

theorem fenced_output_parses_alike:
  "cleaned (Some (wrap_fenced s)) = cleaned (Some s) \<and>
   cleaned (Some (wrap_fenced_lines s)) = cleaned (Some s) \<and>
   snd (parse_inline co (Some (wrap_fenced s))) = snd (parse_inline co (Some s)) \<and>
   snd (parse_inline co (Some (wrap_fenced_lines s))) = snd (parse_inline co (Some s))"
proof -
  have a: "cleaned (Some (wrap_fenced s)) = cleaned (Some s)"
    by (simp add: cleaned_def strip_wrap_fenced)
  have b: "cleaned (Some (wrap_fenced_lines s)) = cleaned (Some s)"
    by (simp add: cleaned_def strip_wrap_fenced_lines trim_lines)
  have c: "snd (parse_inline co r) = snd (parse_inline co r')" if "cleaned r = cleaned r'" for r r'
    using that by (cases "JSON_parse co (cleaned r')")
      (simp_all add: parse_inline_def try_catch_def bind_def await_def emit_def ret_def)
  show ?thesis using a b c[OF a] c[OF b] by simp
qed

theorem fenced_output_parses_alike_witness:
  "cleaned (Some (wrap_fenced_lines ''[]'')) = ''[]'' \<and>
   snd (parse_inline (demo_collaborators [] (Inr None) (Inr None) (Inr ''sha''))
          (Some (wrap_fenced_lines ''[]''))) = Inr (JArr [])"
proof -
  let ?co = "demo_collaborators [] (Inr None) (Inr None) (Inr ''sha'')"
  have a: "cleaned (Some ''[]'') = ''[]''" by code_simp
  have b: "snd (parse_inline ?co (Some ''[]'')) = Inr (JArr [])" by code_simp
  from fenced_output_parses_alike[of "''[]''" ?co] a b show ?thesis by simp
qed

section \<open>Properties of the orchestrator\<close>

lemma bind_emit: "bind (emit ev) k = (ev # fst (k ()), snd (k ()))"
  by (simp add: bind_def emit_def split: prod.splits)

lemma bind_ret: "bind (ret x) k = k x"
  by (simp add: bind_def ret_def split: prod.splits)

lemma bind_await_Inr: "bind (await (Inr x)) k = k x"
  by (simp add: bind_def await_def split: prod.splits)

lemma bind_await_Inl: "bind (await (Inl e)) k = ([], Inl e)"
  by (simp add: bind_def await_def)

lemma bind_pair_Inl: "bind (es, Inl e) k = (es, Inl e)"
  by (simp add: bind_def)

lemma bind_pair_Inr: "bind (es, Inr x) k = (es @ fst (k x), snd (k x))"
  by (simp add: bind_def split: prod.splits)

lemma try_catch_pair_Inr: "try_catch (es, Inr x) h = (es, Inr x)"
  by (simp add: try_catch_def)

lemma try_catch_pair_Inl: "try_catch (es, Inl e) h = (es @ fst (h e), snd (h e))"
  by (simp add: try_catch_def split: prod.splits)

lemmas comp_simps = bind_emit bind_ret bind_await_Inr bind_await_Inl bind_pair_Inl bind_pair_Inr
  try_catch_pair_Inr try_catch_pair_Inl emit_def ret_def await_def

lemma parse_inline_None:
  "JSON_parse co (cleaned r) = None \<Longrightarrow>
   parse_inline co r = ([Log InvalidJson, Log (RawResponse r)], Inr (JArr []))"
  by (simp add: parse_inline_def comp_simps)

lemma parse_inline_Some:
  "JSON_parse co (cleaned r) = Some v \<Longrightarrow> parse_inline co r = ([Log (GeneratedInline v)], Inr v)"
  by (simp add: parse_inline_def comp_simps)

lemma post_inline_empty: "post_inline co (JArr []) = ([Log NoInlineIssues], Inr ())"
  by (simp add: post_inline_def comp_simps)

lemma try_catch_returns:
  assumes "\<And>e. snd (h e) = Inr ()"
  shows "snd (try_catch m h) = Inr ()"
proof (cases m)
  case (Pair es r)
  then show ?thesis
    by (cases r) (simp_all add: try_catch_pair_Inl try_catch_pair_Inr assms)
qed

lemma post_inline_returns:
  assumes "inlineComments \<noteq> JNull"
  shows "snd (post_inline co inlineComments) = Inr ()"
proof -
  obtain len where len: "get_length inlineComments = Inr len"
    using assms by (cases inlineComments) auto
  let ?t = "try_catch
              (bind (emit PullsGet) (\<lambda>_.
               bind (await (pulls_get co)) (\<lambda>commitSha.
               bind (await (comments_of inlineComments)) (\<lambda>comments.
               bind (emit (CreateReview commitSha comments)) (\<lambda>_.
               await (createReview co commitSha comments))))))
              (\<lambda>err.
                 bind (emit (Log (CreateReviewFailed err)))
                   (\<lambda>_. emit (Log (GeneratedInline inlineComments))))"
  have "snd ?t = Inr ()"
    by (rule try_catch_returns) (simp add: comp_simps)
  then obtain es where "?t = (es, Inr ())" by (cases ?t) auto
  then show ?thesis
    by (simp add: post_inline_def len comp_simps)
qed

lemma post_inline_get_fails:
  assumes "get_length v = Inr len" "truthy len" "pulls_get co = Inl e"
  shows "post_inline co v =
    ([PullsGet, Log (CreateReviewFailed e), Log (GeneratedInline v), Log (AddedInline len)], Inr ())"
  using assms by (simp add: post_inline_def comp_simps)

lemma post_inline_create_fails:
  assumes "get_length v = Inr len" "truthy len" "pulls_get co = Inr sha"
    "comments_of v = Inr cs" "createReview co sha cs = Inl e"
  shows "post_inline co v =
    ([PullsGet, CreateReview sha cs, Log (CreateReviewFailed e), Log (GeneratedInline v),
      Log (AddedInline len)], Inr ())"
  using assms by (simp add: post_inline_def comp_simps)

lemma main_stages:
  assumes "listFiles co = Inr files"
  shows "main cfg co =
    (case inline_stage cfg co (build_fileDiffs files) of
       (es1, Inl e) \<Rightarrow> (preamble_events files @ es1, Inl e)
     | (es1, Inr u) \<Rightarrow>
         (case summary_stage cfg co (build_fileDiffs files) of
            (es2, Inl e) \<Rightarrow> (preamble_events files @ es1 @ es2, Inl e)
          | (es2, Inr u) \<Rightarrow> (preamble_events files @ es1 @ es2 @ [Log ReviewCompleted], Inr ())))"
  using assms
  by (simp add: main_def preamble_events_def inline_stage_def summary_stage_def inline_requested_def
      summary_requested_def bind_def emit_def ret_def await_def split: prod.splits sum.splits)

lemma main_listFiles_fails:
  assumes "listFiles co = Inl e"
  shows "main cfg co = ([Log FetchingChangedFiles, ListFiles], Inl e)"
  using assms by (simp add: main_def comp_simps)

lemma run_stages:
  assumes "has_prNumber cfg" "listFiles co = Inr files"
  shows "run cfg co =
    (case inline_stage cfg co (build_fileDiffs files) of
       (es1, Inl e) \<Rightarrow> (preamble_events files @ es1 @ [Log (FatalError e)], 1)
     | (es1, Inr u) \<Rightarrow>
         (case summary_stage cfg co (build_fileDiffs files) of
            (es2, Inl e) \<Rightarrow> (preamble_events files @ es1 @ es2 @ [Log (FatalError e)], 1)
          | (es2, Inr u) \<Rightarrow> (preamble_events files @ es1 @ es2 @ [Log ReviewCompleted], 0)))"
  using assms by (simp add: run_def main_stages split: prod.splits sum.splits)

lemma inline_review_generation_fails:
  assumes "generateContent co (inline_prompt cfg d) (GEMINI_API_KEY cfg) = Inl e"
  shows "inline_review cfg co d =
    ([Log GeneratingInline, Generate (inline_prompt cfg d) (GEMINI_API_KEY cfg)], Inl e)"
  using assms by (simp add: inline_review_def callGemini_def comp_simps)

lemma inline_review_generated:
  assumes "generateContent co (inline_prompt cfg d) (GEMINI_API_KEY cfg) = Inr r"
  shows "inline_review cfg co d =
    ([Log GeneratingInline, Generate (inline_prompt cfg d) (GEMINI_API_KEY cfg)] @
       fst (parse_inline co r) @
       (case snd (parse_inline co r) of Inl e \<Rightarrow> [] | Inr v \<Rightarrow> fst (post_inline co v)),
     (case snd (parse_inline co r) of Inl e \<Rightarrow> Inl e | Inr v \<Rightarrow> snd (post_inline co v)))"
  using assms
  by (simp add: inline_review_def callGemini_def bind_def emit_def await_def
      split: prod.splits sum.splits)

lemma inline_review_malformed:
  assumes "generateContent co (inline_prompt cfg d) (GEMINI_API_KEY cfg) = Inr r"
    "JSON_parse co (cleaned r) = None"
  shows "inline_review cfg co d =
    ([Log GeneratingInline, Generate (inline_prompt cfg d) (GEMINI_API_KEY cfg),
      Log InvalidJson, Log (RawResponse r), Log NoInlineIssues], Inr ())"
  using assms
  by (simp add: inline_review_generated parse_inline_None post_inline_empty)

lemma inline_review_empty_list:
  assumes "generateContent co (inline_prompt cfg d) (GEMINI_API_KEY cfg) = Inr r"
    "JSON_parse co (cleaned r) = Some (JArr [])"
  shows "inline_review cfg co d =
    ([Log GeneratingInline, Generate (inline_prompt cfg d) (GEMINI_API_KEY cfg),
      Log (GeneratedInline (JArr [])), Log NoInlineIssues], Inr ())"
  using assms
  by (simp add: inline_review_generated parse_inline_Some post_inline_empty)

lemma inline_review_returns:
  assumes "generateContent co (inline_prompt cfg d) (GEMINI_API_KEY cfg) = Inr r"
    "JSON_parse co (cleaned r) = Some v" "v \<noteq> JNull"
  shows "snd (inline_review cfg co d) = Inr ()"
  using assms by (simp add: inline_review_generated parse_inline_Some post_inline_returns)

lemma summary_review_calls:
  "\<exists>es. fst (summary_review cfg co d) =
     Log GeneratingSummary # Generate (summary_prompt cfg d) (GEMINI_API_KEY_2 cfg) # es"
  by (simp add: summary_review_def callGemini_def bind_def emit_def await_def
      split: prod.splits sum.splits option.splits)

lemma summary_review_generation_fails:
  assumes "generateContent co (summary_prompt cfg d) (GEMINI_API_KEY_2 cfg) = Inl e"
  shows "summary_review cfg co d =
    ([Log GeneratingSummary, Generate (summary_prompt cfg d) (GEMINI_API_KEY_2 cfg)], Inl e)"
  using assms by (simp add: summary_review_def callGemini_def comp_simps)

lemma summary_review_no_text:
  assumes "generateContent co (summary_prompt cfg d) (GEMINI_API_KEY_2 cfg) = Inr r"
    "r = None \<or> r = Some []"
  shows "summary_review cfg co d =
    ([Log GeneratingSummary, Generate (summary_prompt cfg d) (GEMINI_API_KEY_2 cfg),
      Log NoSummary, Log (SummaryResponseWas r)], Inr ())"
  using assms by (auto simp: summary_review_def callGemini_def comp_simps)

lemma summary_review_posts:
  assumes "generateContent co (summary_prompt cfg d) (GEMINI_API_KEY_2 cfg) = Inr (Some t)"
    "t \<noteq> []"
  shows "summary_review cfg co d =
    ([Log GeneratingSummary, Generate (summary_prompt cfg d) (GEMINI_API_KEY_2 cfg),
      CreateComment t] @
       (case createComment co t of Inl e \<Rightarrow> [] | Inr u \<Rightarrow> [Log SummaryPosted]),
     (case createComment co t of Inl e \<Rightarrow> Inl e | Inr u \<Rightarrow> Inr ()))"
  using assms by (auto simp: summary_review_def callGemini_def comp_simps split: sum.splits)

lemma parse_inline_value:
  "snd (parse_inline co r) =
     Inr (case JSON_parse co (cleaned r) of Some v \<Rightarrow> v | None \<Rightarrow> JArr [])"
  by (cases "JSON_parse co (cleaned r)") (simp_all add: parse_inline_None parse_inline_Some)

lemma parse_inline_diagnostic:
  "Log InvalidJson \<in> set (fst (parse_inline co r)) \<longleftrightarrow> JSON_parse co (cleaned r) = None"
  by (cases "JSON_parse co (cleaned r)") (simp_all add: parse_inline_None parse_inline_Some)

lemma summary_review_no_review: "filter is_review (fst (summary_review cfg co d)) = []"
  by (simp add: summary_review_def callGemini_def bind_def emit_def await_def is_review_def
      split: prod.splits sum.splits option.splits)

lemma preamble_no_post:
  "filter is_review (preamble_events files) = []" "filter is_post (preamble_events files) = []"
  by (simp_all add: preamble_events_def is_review_def is_post_def)

lemma summary_stage_no_review: "filter is_review (fst (summary_stage cfg co d)) = []"
  by (simp add: summary_stage_def summary_review_no_review ret_def)

lemma summary_stage_calls:
  "summary_requested cfg \<Longrightarrow>
   Generate (summary_prompt cfg d) (GEMINI_API_KEY_2 cfg) \<in> set (fst (summary_stage cfg co d))"
  using summary_review_calls[of cfg co d] by (auto simp: summary_stage_def)

lemma run_after_inline:
  assumes "has_prNumber cfg" "listFiles co = Inr files"
    "inline_stage cfg co (build_fileDiffs files) = (es1, Inr ())"
  shows "\<exists>es3 code. run cfg co =
     (preamble_events files @ es1 @ fst (summary_stage cfg co (build_fileDiffs files)) @ es3, code)"
  using assms by (auto simp: run_stages split: prod.splits sum.splits)

text \<open>
  Claim C5 as stated fails: the text \<open>null\<close> parses, the sanitizer returns the value
  null, neither a list of records nor the empty list, and the length test on it throws
  outside any \<open>try\<close>: the run ends with exit status 1 before the summary mode.
\<close>

theorem null_output_is_not_a_list:
  "snd (parse_inline
          (demo_collaborators demo_files (Inr (Some ''null'')) (Inr (Some ''LGTM'')) (Inr ''sha''))
          (Some ''null'')) = Inr JNull \<and>
   null_output_run =
     ([Log FetchingChangedFiles, ListFiles, Log SendingDiff, Log GeneratingInline,
       Generate (inline_prompt demo_config (build_fileDiffs demo_files)) (Some ''key1''),
       Log (GeneratedInline JNull), Log (FatalError TypeError)], 1)"
  by code_simp

text \<open>
  Claim C5, as amended. For every raw model output the sanitizer returns the value that
  the parser yields for the cleaned text, whatever its shape, or the empty list when the
  parse fails, and it logs the malformed-output diagnostic exactly when the parse fails;
  it never throws. When the output is malformed the inline review returns normally and
  posts nothing, no review is created in the whole run, and a requested summary mode
  still makes its generation call.
\<close>

theorem malformed_output_recovered:
  "snd (parse_inline co r) =
     Inr (case JSON_parse co (cleaned r) of Some v \<Rightarrow> v | None \<Rightarrow> JArr []) \<and>
   (Log InvalidJson \<in> set (fst (parse_inline co r)) \<longleftrightarrow> JSON_parse co (cleaned r) = None) \<and>
   (JSON_parse co (cleaned r) = None \<and>
    generateContent co (inline_prompt cfg (build_fileDiffs files)) (GEMINI_API_KEY cfg) = Inr r \<longrightarrow>
      snd (inline_review cfg co (build_fileDiffs files)) = Inr () \<and>
      filter is_post (fst (inline_review cfg co (build_fileDiffs files))) = [] \<and>
      (has_prNumber cfg \<and> listFiles co = Inr files \<and> inline_requested cfg \<longrightarrow>
         filter is_review (fst (run cfg co)) = [] \<and>
         (summary_requested cfg \<longrightarrow>
            Generate (summary_prompt cfg (build_fileDiffs files)) (GEMINI_API_KEY_2 cfg)
              \<in> set (fst (run cfg co)))))"
proof (intro conjI impI)
  show "snd (parse_inline co r) =
     Inr (case JSON_parse co (cleaned r) of Some v \<Rightarrow> v | None \<Rightarrow> JArr [])"
    by (rule parse_inline_value)
  show "Log InvalidJson \<in> set (fst (parse_inline co r)) \<longleftrightarrow> JSON_parse co (cleaned r) = None"
    by (rule parse_inline_diagnostic)
next
  assume a: "JSON_parse co (cleaned r) = None \<and>
    generateContent co (inline_prompt cfg (build_fileDiffs files)) (GEMINI_API_KEY cfg) = Inr r"
  then have ir: "inline_review cfg co (build_fileDiffs files) =
    ([Log GeneratingInline, Generate (inline_prompt cfg (build_fileDiffs files)) (GEMINI_API_KEY cfg),
      Log InvalidJson, Log (RawResponse r), Log NoInlineIssues], Inr ())"
    by (simp add: inline_review_malformed)
  show "snd (inline_review cfg co (build_fileDiffs files)) = Inr ()"
    by (simp add: ir)
  show "filter is_post (fst (inline_review cfg co (build_fileDiffs files))) = []"
    by (simp add: ir is_post_def)
  assume b: "has_prNumber cfg \<and> listFiles co = Inr files \<and> inline_requested cfg"
  then have st: "inline_stage cfg co (build_fileDiffs files) =
    ([Log GeneratingInline, Generate (inline_prompt cfg (build_fileDiffs files)) (GEMINI_API_KEY cfg),
      Log InvalidJson, Log (RawResponse r), Log NoInlineIssues], Inr ())"
    by (simp add: inline_stage_def ir)
  show "filter is_review (fst (run cfg co)) = []"
    using b st summary_stage_no_review[of cfg co "build_fileDiffs files"]
    by (auto simp: run_stages preamble_no_post is_review_def split: prod.splits sum.splits)
  assume c: "summary_requested cfg"
  from run_after_inline[OF _ _ st] b obtain es3 code where
    "run cfg co = (preamble_events files @
       [Log GeneratingInline, Generate (inline_prompt cfg (build_fileDiffs files)) (GEMINI_API_KEY cfg),
        Log InvalidJson, Log (RawResponse r), Log NoInlineIssues] @
       fst (summary_stage cfg co (build_fileDiffs files)) @ es3, code)"
    by blast
  then show "Generate (summary_prompt cfg (build_fileDiffs files)) (GEMINI_API_KEY_2 cfg)
      \<in> set (fst (run cfg co))"
    using summary_stage_calls[OF c, of "build_fileDiffs files" co] by simp
qed

theorem malformed_output_recovered_witness:
  "JSON_parse (demo_collaborators demo_files (Inr (Some truncated_output)) (Inr (Some ''LGTM''))
      (Inr ''sha'')) (cleaned (Some truncated_output)) = None \<and>
   filter is_review (fst malformed_run) = [] \<and>
   Generate (summary_prompt demo_config (build_fileDiffs demo_files)) (GEMINI_API_KEY_2 demo_config)
     \<in> set (fst malformed_run)"
proof -
  let ?co = "demo_collaborators demo_files (Inr (Some truncated_output)) (Inr (Some ''LGTM''))
      (Inr ''sha'')"
  have a: "JSON_parse ?co (cleaned (Some truncated_output)) = None" by code_simp
  have b: "generateContent ?co (inline_prompt demo_config (build_fileDiffs demo_files))
      (GEMINI_API_KEY demo_config) = Inr (Some truncated_output)" by code_simp
  have c: "has_prNumber demo_config" by code_simp
  have d: "listFiles ?co = Inr demo_files" by code_simp
  have e: "inline_requested demo_config" by code_simp
  have f: "summary_requested demo_config" by code_simp
  from malformed_output_recovered[of ?co "Some truncated_output" demo_config demo_files] a b c d e f
  show ?thesis unfolding malformed_run_def by blast
qed

lemma post_inline_logs_failure:
  assumes "get_length v = Inr len" "truthy len"
    "pulls_get co = Inl e \<or>
     (\<exists>sha cs. pulls_get co = Inr sha \<and> comments_of v = Inr cs \<and> createReview co sha cs = Inl e)"
  shows "Log (CreateReviewFailed e) \<in> set (fst (post_inline co v))"
  using assms post_inline_get_fails[of v len co e]
  by (auto simp: post_inline_create_fails)

lemma run_fatal_last:
  assumes "has_prNumber cfg" "listFiles co = Inr files"
    "snd (inline_stage cfg co (build_fileDiffs files)) = Inr ()"
    "snd (summary_stage cfg co (build_fileDiffs files)) = Inl e"
  shows "snd (run cfg co) = 1 \<and> last (fst (run cfg co)) = Log (FatalError e)"
  using assms by (auto simp: run_stages split: prod.splits sum.splits)

text \<open>
  Claim C3 as stated fails: with both modes requested, a failed generation call of the
  inline mode is not caught locally; the run ends there with exit status 1 and the
  summary mode never starts.
\<close>

theorem failed_generation_blocks_summary:
  "run demo_config
     (demo_collaborators demo_files (Inl (RequestFailed ''503'')) (Inr (Some ''LGTM''))
        (Inr ''sha'')) =
   ([Log FetchingChangedFiles, ListFiles, Log SendingDiff, Log GeneratingInline,
     Generate (inline_prompt demo_config (build_fileDiffs demo_files)) (Some ''key1''),
     Log (FatalError (RequestFailed ''503''))], 1)"
  by code_simp

text \<open>
  Claim C3, as amended. A missing pull-request number is fatal before any call. A failure
  of listing the changed files, of either generation call or of posting the summary
  comment is not caught locally: the top-level handler logs it and the process exits with
  status 1, so a failed inline generation call keeps the summary mode from running. Only a
  failure while posting the inline review (reading the head commit, or creating the
  review) is caught locally and logged; the inline mode then returns normally and a
  requested summary mode still makes its generation call.
\<close>

theorem only_posting_failures_are_caught:
  "(\<not> has_prNumber cfg \<longrightarrow> run cfg co = ([Log NoPullRequestNumber], 1)) \<and>
   (has_prNumber cfg \<and> listFiles co = Inl e \<longrightarrow>
      run cfg co = ([Log FetchingChangedFiles, ListFiles, Log (FatalError e)], 1)) \<and>
   (has_prNumber cfg \<and> listFiles co = Inr files \<and> inline_requested cfg \<and>
    generateContent co (inline_prompt cfg (build_fileDiffs files)) (GEMINI_API_KEY cfg) = Inl e \<longrightarrow>
      run cfg co =
        (preamble_events files @
         [Log GeneratingInline,
          Generate (inline_prompt cfg (build_fileDiffs files)) (GEMINI_API_KEY cfg),
          Log (FatalError e)], 1)) \<and>
   (has_prNumber cfg \<and> listFiles co = Inr files \<and> summary_requested cfg \<and>
    snd (inline_stage cfg co (build_fileDiffs files)) = Inr () \<and>
    (generateContent co (summary_prompt cfg (build_fileDiffs files)) (GEMINI_API_KEY_2 cfg) = Inl e \<or>
     (\<exists>t. generateContent co (summary_prompt cfg (build_fileDiffs files)) (GEMINI_API_KEY_2 cfg) =
            Inr (Some t) \<and> t \<noteq> [] \<and> createComment co t = Inl e)) \<longrightarrow>
      snd (run cfg co) = 1 \<and> last (fst (run cfg co)) = Log (FatalError e)) \<and>
   (has_prNumber cfg \<and> listFiles co = Inr files \<and> inline_requested cfg \<and>
    generateContent co (inline_prompt cfg (build_fileDiffs files)) (GEMINI_API_KEY cfg) = Inr r \<and>
    JSON_parse co (cleaned r) = Some v \<and> get_length v = Inr len \<and> truthy len \<and>
    (pulls_get co = Inl e \<or>
     (\<exists>sha cs. pulls_get co = Inr sha \<and> comments_of v = Inr cs \<and>
        createReview co sha cs = Inl e)) \<longrightarrow>
      snd (inline_review cfg co (build_fileDiffs files)) = Inr () \<and>
      Log (CreateReviewFailed e) \<in> set (fst (run cfg co)) \<and>
      (summary_requested cfg \<longrightarrow>
         Generate (summary_prompt cfg (build_fileDiffs files)) (GEMINI_API_KEY_2 cfg)
           \<in> set (fst (run cfg co))))"
proof (intro conjI impI)
  assume "\<not> has_prNumber cfg"
  then show "run cfg co = ([Log NoPullRequestNumber], 1)" by (simp add: run_def)
next
  assume "has_prNumber cfg \<and> listFiles co = Inl e"
  then show "run cfg co = ([Log FetchingChangedFiles, ListFiles, Log (FatalError e)], 1)"
    by (simp add: run_def main_listFiles_fails)
next
  assume "has_prNumber cfg \<and> listFiles co = Inr files \<and> inline_requested cfg \<and>
    generateContent co (inline_prompt cfg (build_fileDiffs files)) (GEMINI_API_KEY cfg) = Inl e"
  then show "run cfg co =
        (preamble_events files @
         [Log GeneratingInline,
          Generate (inline_prompt cfg (build_fileDiffs files)) (GEMINI_API_KEY cfg),
          Log (FatalError e)], 1)"
    by (simp add: run_stages inline_stage_def inline_review_generation_fails)
next
  assume a: "has_prNumber cfg \<and> listFiles co = Inr files \<and> summary_requested cfg \<and>
    snd (inline_stage cfg co (build_fileDiffs files)) = Inr () \<and>
    (generateContent co (summary_prompt cfg (build_fileDiffs files)) (GEMINI_API_KEY_2 cfg) = Inl e \<or>
     (\<exists>t. generateContent co (summary_prompt cfg (build_fileDiffs files)) (GEMINI_API_KEY_2 cfg) =
            Inr (Some t) \<and> t \<noteq> [] \<and> createComment co t = Inl e))"
  then have "snd (summary_stage cfg co (build_fileDiffs files)) = Inl e"
    by (auto simp: summary_stage_def summary_review_generation_fails summary_review_posts)
  with a have r: "snd (run cfg co) = 1 \<and> last (fst (run cfg co)) = Log (FatalError e)"
    by (intro run_fatal_last) auto
  from r show "snd (run cfg co) = 1" by simp
  from r show "last (fst (run cfg co)) = Log (FatalError e)" by simp
next
  assume a: "has_prNumber cfg \<and> listFiles co = Inr files \<and> inline_requested cfg \<and>
    generateContent co (inline_prompt cfg (build_fileDiffs files)) (GEMINI_API_KEY cfg) = Inr r \<and>
    JSON_parse co (cleaned r) = Some v \<and> get_length v = Inr len \<and> truthy len \<and>
    (pulls_get co = Inl e \<or>
     (\<exists>sha cs. pulls_get co = Inr sha \<and> comments_of v = Inr cs \<and>
        createReview co sha cs = Inl e))"
  then have nn: "v \<noteq> JNull" by auto
  with a show ret: "snd (inline_review cfg co (build_fileDiffs files)) = Inr ()"
    by (intro inline_review_returns) auto
  have pl: "Log (CreateReviewFailed e) \<in> set (fst (post_inline co v))"
    using a by (intro post_inline_logs_failure) auto
  have "fst (inline_review cfg co (build_fileDiffs files)) =
      [Log GeneratingInline, Generate (inline_prompt cfg (build_fileDiffs files)) (GEMINI_API_KEY cfg)] @
      [Log (GeneratedInline v)] @ fst (post_inline co v)"
    using a by (simp add: inline_review_generated parse_inline_Some)
  then have il: "Log (CreateReviewFailed e) \<in> set (fst (inline_review cfg co (build_fileDiffs files)))"
    using pl by simp
  obtain es1 where st: "inline_stage cfg co (build_fileDiffs files) = (es1, Inr ())"
    and es1: "es1 = fst (inline_review cfg co (build_fileDiffs files))"
    using a ret by (cases "inline_review cfg co (build_fileDiffs files)") (auto simp: inline_stage_def)
  from run_after_inline[OF _ _ st] a obtain es3 code where
    run: "run cfg co = (preamble_events files @ es1 @
       fst (summary_stage cfg co (build_fileDiffs files)) @ es3, code)"
    by blast
  show "Log (CreateReviewFailed e) \<in> set (fst (run cfg co))"
    using run il es1 by simp
  assume c: "summary_requested cfg"
  show "Generate (summary_prompt cfg (build_fileDiffs files)) (GEMINI_API_KEY_2 cfg)
      \<in> set (fst (run cfg co))"
    using run summary_stage_calls[OF c, of "build_fileDiffs files" co] by simp
qed

theorem only_posting_failures_are_caught_witness:
  "pulls_get (demo_collaborators demo_files (Inr (Some one_comment_output)) (Inr (Some ''LGTM''))
      (Inl (RequestFailed ''404''))) = Inl (RequestFailed ''404'') \<and>
   Log (CreateReviewFailed (RequestFailed ''404'')) \<in> set (fst posting_failure_run) \<and>
   Generate (summary_prompt demo_config (build_fileDiffs demo_files)) (GEMINI_API_KEY_2 demo_config)
     \<in> set (fst posting_failure_run)"
proof -
  let ?co = "demo_collaborators demo_files (Inr (Some one_comment_output)) (Inr (Some ''LGTM''))
      (Inl (RequestFailed ''404''))"
  let ?v = "JArr [JObj [(''file'', JStr ''a.ts''), (''line'', JNum 3), (''comment'', JStr ''fix'')]]"
  have a: "JSON_parse ?co (cleaned (Some one_comment_output)) = Some ?v" by code_simp
  have b: "generateContent ?co (inline_prompt demo_config (build_fileDiffs demo_files))
      (GEMINI_API_KEY demo_config) = Inr (Some one_comment_output)" by code_simp
  have c: "has_prNumber demo_config" by code_simp
  have d: "listFiles ?co = Inr demo_files" by code_simp
  have e: "inline_requested demo_config" by code_simp
  have f: "summary_requested demo_config" by code_simp
  have g: "get_length ?v = Inr (Some (JNum 1))" by code_simp
  have h: "truthy (Some (JNum 1))" by code_simp
  have i: "pulls_get ?co = Inl (RequestFailed ''404'')" by code_simp
  from only_posting_failures_are_caught[where cfg=demo_config and co="?co" and files=demo_files
      and r="Some one_comment_output" and v="?v" and len="Some (JNum 1)"
      and e="RequestFailed ''404''"] a b c d e f g h i
  show ?thesis unfolding posting_failure_run_def by blast
qed

text \<open>
  Claim C4 as stated fails: with an empty changed-file list the run logs the notice and
  goes on; when the summary generation returns a text, that text is posted as a comment.
\<close>

theorem empty_file_list_posts_summary:
  "listFiles (demo_collaborators [] (Inr (Some ''[]'')) (Inr (Some ''LGTM'')) (Inr ''sha'')) = Inr [] \<and>
   run demo_config (demo_collaborators [] (Inr (Some ''[]'')) (Inr (Some ''LGTM'')) (Inr ''sha'')) =
   ([Log FetchingChangedFiles, ListFiles, Log NoFilesChanged, Log SendingDiff,
     Log GeneratingInline, Generate (inline_prompt demo_config []) (Some ''key1''),
     Log (GeneratedInline (JArr [])), Log NoInlineIssues,
     Log GeneratingSummary, Generate (summary_prompt demo_config []) (Some ''key2''),
     CreateComment ''LGTM'', Log SummaryPosted, Log ReviewCompleted], 0)"
  by code_simp

text \<open>
  Claim C4, as amended. With an empty changed-file list the orchestrator logs the no-op
  notice, raises no error for it, and goes on with an empty diff text. A requested inline
  mode still makes its generation call. A requested summary mode makes its generation
  call when the inline mode was not requested or has returned; when the inline
  generation call fails, the run ends with status 1 and the summary mode does not start.
  The run posts no comment and exits with status 0 when every requested generation call
  succeeds, the inline output is malformed or the empty list, and the summary response is
  absent or empty.
\<close>

theorem empty_file_list_continues:
  assumes "has_prNumber cfg" "listFiles co = Inr []"
  shows "build_fileDiffs [] = [] \<and>
    (\<exists>es. fst (run cfg co) =
       [Log FetchingChangedFiles, ListFiles, Log NoFilesChanged, Log SendingDiff] @ es) \<and>
    (inline_requested cfg \<longrightarrow>
       Generate (inline_prompt cfg []) (GEMINI_API_KEY cfg) \<in> set (fst (run cfg co))) \<and>
    (summary_requested cfg \<and> snd (inline_stage cfg co []) = Inr () \<longrightarrow>
       Generate (summary_prompt cfg []) (GEMINI_API_KEY_2 cfg) \<in> set (fst (run cfg co))) \<and>
    (inline_requested cfg \<and>
     (\<exists>e. generateContent co (inline_prompt cfg []) (GEMINI_API_KEY cfg) = Inl e) \<longrightarrow>
       snd (run cfg co) = 1 \<and> Log GeneratingSummary \<notin> set (fst (run cfg co))) \<and>
    ((inline_requested cfg \<longrightarrow>
        (\<exists>r. generateContent co (inline_prompt cfg []) (GEMINI_API_KEY cfg) = Inr r \<and>
           (JSON_parse co (cleaned r) = None \<or> JSON_parse co (cleaned r) = Some (JArr [])))) \<and>
     (summary_requested cfg \<longrightarrow>
        (\<exists>r. generateContent co (summary_prompt cfg []) (GEMINI_API_KEY_2 cfg) = Inr r \<and>
           (r = None \<or> r = Some []))) \<longrightarrow>
       snd (run cfg co) = 0 \<and> filter is_post (fst (run cfg co)) = [])"
proof (intro conjI impI)
  show d: "build_fileDiffs [] = []" by (simp add: build_fileDiffs_def)
  have pre: "preamble_events [] =
      [Log FetchingChangedFiles, ListFiles, Log NoFilesChanged, Log SendingDiff]"
    by (simp add: preamble_events_def)
  show "\<exists>es. fst (run cfg co) =
       [Log FetchingChangedFiles, ListFiles, Log NoFilesChanged, Log SendingDiff] @ es"
    using assms by (auto simp: run_stages pre split: prod.splits sum.splits)
  show "Generate (inline_prompt cfg []) (GEMINI_API_KEY cfg) \<in> set (fst (run cfg co))"
    if "inline_requested cfg"
  proof -
    have "\<exists>es. fst (inline_review cfg co []) =
        Log GeneratingInline # Generate (inline_prompt cfg []) (GEMINI_API_KEY cfg) # es"
      by (simp add: inline_review_def callGemini_def bind_def emit_def await_def
          split: prod.splits sum.splits)
    then show ?thesis
      using assms that
      by (auto simp: run_stages d inline_stage_def split: prod.splits sum.splits)
  qed
  show "Generate (summary_prompt cfg []) (GEMINI_API_KEY_2 cfg) \<in> set (fst (run cfg co))"
    if h: "summary_requested cfg \<and> snd (inline_stage cfg co []) = Inr ()"
  proof -
    obtain es1 where st: "inline_stage cfg co (build_fileDiffs []) = (es1, Inr ())"
      using h by (cases "inline_stage cfg co []") (auto simp: d)
    from run_after_inline[OF assms st] obtain es3 code where
      "run cfg co = (preamble_events [] @ es1 @
         fst (summary_stage cfg co (build_fileDiffs [])) @ es3, code)"
      by blast
    then show ?thesis
      using summary_stage_calls[of cfg "[]" co] h by (simp add: d)
  qed
  have fatal: "snd (run cfg co) = 1 \<and> Log GeneratingSummary \<notin> set (fst (run cfg co))"
    if h: "inline_requested cfg \<and>
     (\<exists>e. generateContent co (inline_prompt cfg []) (GEMINI_API_KEY cfg) = Inl e)"
  proof -
    from h obtain e where "generateContent co (inline_prompt cfg []) (GEMINI_API_KEY cfg) = Inl e"
      by blast
    then have "run cfg co =
        (preamble_events [] @
         [Log GeneratingInline, Generate (inline_prompt cfg []) (GEMINI_API_KEY cfg),
          Log (FatalError e)], 1)"
      using assms h
      by (simp add: run_stages d inline_stage_def inline_review_generation_fails)
    then show ?thesis
      by (simp add: pre)
  qed
  show "snd (run cfg co) = 1"
    if "inline_requested cfg \<and>
     (\<exists>e. generateContent co (inline_prompt cfg []) (GEMINI_API_KEY cfg) = Inl e)"
    using fatal[OF that] by simp
  show "Log GeneratingSummary \<notin> set (fst (run cfg co))"
    if "inline_requested cfg \<and>
     (\<exists>e. generateContent co (inline_prompt cfg []) (GEMINI_API_KEY cfg) = Inl e)"
    using fatal[OF that] by simp
next
  assume h: "(inline_requested cfg \<longrightarrow>
        (\<exists>r. generateContent co (inline_prompt cfg []) (GEMINI_API_KEY cfg) = Inr r \<and>
           (JSON_parse co (cleaned r) = None \<or> JSON_parse co (cleaned r) = Some (JArr [])))) \<and>
     (summary_requested cfg \<longrightarrow>
        (\<exists>r. generateContent co (summary_prompt cfg []) (GEMINI_API_KEY_2 cfg) = Inr r \<and>
           (r = None \<or> r = Some [])))"
  have d: "build_fileDiffs [] = []" by (simp add: build_fileDiffs_def)
  have i: "snd (inline_stage cfg co []) = Inr () \<and> filter is_post (fst (inline_stage cfg co [])) = []"
  proof (cases "inline_requested cfg")
    case True
    then obtain r where "generateContent co (inline_prompt cfg []) (GEMINI_API_KEY cfg) = Inr r"
      "JSON_parse co (cleaned r) = None \<or> JSON_parse co (cleaned r) = Some (JArr [])"
      using h by blast
    then show ?thesis
      using True
      by (auto simp: inline_stage_def inline_review_malformed inline_review_empty_list is_post_def)
  next
    case False
    then show ?thesis by (simp add: inline_stage_def ret_def)
  qed
  have s: "snd (summary_stage cfg co []) = Inr () \<and> filter is_post (fst (summary_stage cfg co [])) = []"
  proof (cases "summary_requested cfg")
    case True
    then obtain r where "generateContent co (summary_prompt cfg []) (GEMINI_API_KEY_2 cfg) = Inr r"
      "r = None \<or> r = Some []"
      using h by blast
    then show ?thesis
      using True summary_review_no_text[of co cfg "[]" r]
      by (auto simp: summary_stage_def is_post_def)
  next
    case False
    then show ?thesis by (simp add: summary_stage_def ret_def)
  qed
  have r: "snd (run cfg co) = 0 \<and> filter is_post (fst (run cfg co)) = []"
    using assms i s
    by (auto simp: run_stages d preamble_no_post is_post_def split: prod.splits sum.splits)
  from r show "snd (run cfg co) = 0" by simp
  from r show "filter is_post (fst (run cfg co)) = []" by simp
qed

theorem empty_file_list_continues_witness:
  "has_prNumber demo_config \<and>
   listFiles (demo_collaborators [] (Inr (Some ''[]'')) (Inr None) (Inr ''sha'')) = Inr [] \<and>
   Generate (inline_prompt demo_config []) (GEMINI_API_KEY demo_config) \<in> set (fst quiet_run) \<and>
   Generate (summary_prompt demo_config []) (GEMINI_API_KEY_2 demo_config) \<in> set (fst quiet_run) \<and>
   snd quiet_run = 0 \<and> filter is_post (fst quiet_run) = []"
proof -
  let ?co = "demo_collaborators [] (Inr (Some ''[]'')) (Inr None) (Inr ''sha'')"
  have a: "has_prNumber demo_config" by code_simp
  have b: "listFiles ?co = Inr []" by code_simp
  have c: "generateContent ?co (inline_prompt demo_config []) (GEMINI_API_KEY demo_config) =
      Inr (Some ''[]'')" by code_simp
  have d: "JSON_parse ?co (cleaned (Some ''[]'')) = Some (JArr [])" by code_simp
  have e: "generateContent ?co (summary_prompt demo_config []) (GEMINI_API_KEY_2 demo_config) =
      Inr None" by code_simp
  have f: "inline_requested demo_config" by code_simp
  have g: "summary_requested demo_config" by code_simp
  have h: "snd (inline_stage demo_config ?co []) = Inr ()" by code_simp
  from empty_file_list_continues[OF a b] c d e f g h
  show ?thesis unfolding quiet_run_def using a b by blast
qed

end
